theory Spec2Isabelle
  imports Main "HOL-Library.Char_ord" "HOL-Library.List_Lexorder" "HOL-Library.Multiset"
begin

section \<open>PUIPR: the ingestion engine and the last-IP projection (SQLite variant)\<close>

text \<open>
  The development embeds \<^verbatim>\<open>src/app/main.go\<close> (the SQLite server): the ingest
  handler and its transaction loop, the \<^verbatim>\<open>users_last_ip\<close> view, the summary
  query and the per-user history query.

  Conventions of the embedding.
  \<^item> Go strings and SQLite \<^verbatim>\<open>TEXT\<close> values are byte strings (\<^typ>\<open>string\<close>).
    SQLite compares \<^verbatim>\<open>TEXT\<close> with the BINARY collation (bytewise, a proper prefix
    is smaller): this is the lexicographic order on \<^typ>\<open>char list\<close>.
  \<^item> A table is the list of its rows in rowid order. An \<^verbatim>\<open>ORDER BY\<close> is a stable
    sort of the scanned rows: SQL leaves the order among rows with equal keys to
    the engine, and the row order of the table stands for that choice.
  \<^item> \<^verbatim>\<open>int64\<close> values are \<^typ>\<open>int\<close>: the code does no arithmetic on them.
  \<^item> The wall clock and the failures of the store are inputs (\<open>env\<close>).
\<close>

subsection \<open>Input observations\<close>

record TautulliItem =
  UserID :: int
  User :: string
  FriendlyName :: "string option"
  UserThumb :: "string option"
  IPAddress :: "string option"
  Date :: "int option"

subsection \<open>Go's \<^verbatim>\<open>time.Unix(d, 0).UTC().Format(time.RFC3339)\<close>\<close>

text \<open>
  The standard library's conversion of Unix seconds to a civil date, as Go 1.22
  (the toolchain of the Dockerfile) computes it: 400-, 100-, 4- and 1-year
  cycles, then the month from the day of the year. Go counts days from the year
  -292277022399, which is 1 modulo 400; the model counts them from 0001-01-01,
  a whole number of 400-year cycles later, so the cycle arithmetic is the same.
  \<^verbatim>\<open>appendInt\<close> pads with zeros up to a width and never truncates: a year above
  9999 is printed with all its digits.
\<close>

definition digit_char :: "nat \<Rightarrow> char" where
  "digit_char n = ''0123456789'' ! (n mod 10)"

function utoa :: "nat \<Rightarrow> string" where
  "utoa n = (if n < 10 then [digit_char n] else utoa (n div 10) @ [digit_char n])"
  by pat_completeness auto
termination
  by (relation "measure id") auto

declare utoa.simps [simp del]

definition appendInt :: "int \<Rightarrow> nat \<Rightarrow> string" where
  "appendInt x width =
     (let ds = utoa (nat \<bar>x\<bar>)
      in (if x < 0 then ''-'' else []) @ replicate (width - length ds) CHR ''0'' @ ds)"

definition isLeap :: "int \<Rightarrow> bool" where
  "isLeap year = (year mod 4 = 0 \<and> (year mod 100 \<noteq> 0 \<or> year mod 400 = 0))"

definition daysBefore :: "int list" where
  "daysBefore = [0, 31, 59, 90, 120, 151, 181, 212, 243, 273, 304, 334, 365]"

text \<open>
  Year and day of the year (from 0) of a day number counted from 0001-01-01.
  \<open>cut4\<close> is Go's \<^verbatim>\<open>n -= n >> 2\<close>, which turns the quotient 4 of the last
  day of a cycle back into 3. The stages cut off the years inside a 4-year
  cycle, the 4-year cycles inside a century, the centuries inside a 400-year
  cycle, and the 400-year cycles.
\<close>

definition cut4 :: "int \<Rightarrow> int" where
  "cut4 n = n - n div 4"

definition split1 :: "int \<Rightarrow> int \<times> int" where
  "split1 d = (cut4 (d div 365), d - 365 * cut4 (d div 365))"

definition split4 :: "int \<Rightarrow> int \<times> int" where
  "split4 d = (case split1 (d mod 1461) of (n, yday) \<Rightarrow> (4 * (d div 1461) + n, yday))"

definition split100 :: "int \<Rightarrow> int \<times> int" where
  "split100 d =
     (case split4 (d - 36524 * cut4 (d div 36524)) of
        (n, yday) \<Rightarrow> (100 * cut4 (d div 36524) + n, yday))"

definition absYear :: "int \<Rightarrow> int \<times> int" where
  "absYear d =
     (case split100 (d mod 146097) of (n, yday) \<Rightarrow> (1 + 400 * (d div 146097) + n, yday))"

text \<open>Month (1 to 12) and day of the month from the year and the day of the year.\<close>

definition monthDay :: "int \<Rightarrow> int \<Rightarrow> int \<times> int" where
  "monthDay year yday =
     (if isLeap year \<and> yday = 31 + 29 - 1 then (2, 29)
      else
        let day = (if isLeap year \<and> yday > 31 + 29 - 1 then yday - 1 else yday);
            month = day div 31;
            end = daysBefore ! nat (month + 1)
        in if day \<ge> end then (month + 2, day - end + 1)
           else (month + 1, day - daysBefore ! nat month + 1))"

fun formatYMD :: "int \<Rightarrow> int \<times> int \<Rightarrow> string" where
  "formatYMD year (month, day) =
     appendInt year 4 @ ''-'' @ appendInt month 2 @ ''-'' @ appendInt day 2"

fun formatDate :: "int \<times> int \<Rightarrow> string" where
  "formatDate (year, yday) = formatYMD year (monthDay year yday)"

definition formatClock :: "int \<Rightarrow> string" where
  "formatClock s =
     appendInt (s div 3600) 2 @ '':'' @ appendInt ((s mod 3600) div 60) 2 @ '':''
     @ appendInt (s mod 60) 2"

text \<open>The layout \<^verbatim>\<open>2006-01-02T15:04:05Z07:00\<close> at offset 0 (UTC prints \<^verbatim>\<open>Z\<close>).\<close>

definition formatRFC3339 :: "int \<Rightarrow> string" where
  "formatRFC3339 unix =
     formatDate (absYear ((unix + 62135596800) div 86400)) @ ''T''
     @ formatClock ((unix + 62135596800) mod 86400) @ ''Z''"

subsection \<open>The persisted schema\<close>

text \<open>
  \<^verbatim>\<open>plex_users (id INTEGER PRIMARY KEY, username, friendly_name, user_thumb, last_seen)\<close>
  and \<^verbatim>\<open>user_ip_history (id, user_id, ip, first_seen, last_seen, UNIQUE (user_id, ip))\<close>.
  The surrogate \<^verbatim>\<open>id\<close> of a history row is read by no statement of the program; the
  position of the row in the list stands for it.
\<close>

record plex_user =
  pu_id :: int
  pu_username :: string
  pu_friendly_name :: "string option"
  pu_user_thumb :: "string option"
  pu_last_seen :: string

record ip_history =
  uih_user_id :: int
  uih_ip :: string
  uih_first_seen :: string
  uih_last_seen :: string

record store =
  plex_users :: "plex_user list"
  user_ip_history :: "ip_history list"

definition empty_store :: store where
  "empty_store = \<lparr>plex_users = [], user_ip_history = []\<rparr>"

subsection \<open>The two upserts of \<^verbatim>\<open>ingestItems\<close>\<close>

text \<open>
  \<^verbatim>\<open>INSERT INTO plex_users ... ON CONFLICT(id) DO UPDATE SET username=excluded.username,
  friendly_name=excluded.friendly_name, user_thumb=excluded.user_thumb,
  last_seen=CASE WHEN plex_users.last_seen > excluded.last_seen
                 THEN plex_users.last_seen ELSE excluded.last_seen END\<close>
\<close>

definition do_update_user :: "plex_user \<Rightarrow> plex_user \<Rightarrow> plex_user" where
  "do_update_user excluded r =
     r\<lparr>pu_username := pu_username excluded,
       pu_friendly_name := pu_friendly_name excluded,
       pu_user_thumb := pu_user_thumb excluded,
       pu_last_seen := (if pu_last_seen r > pu_last_seen excluded
                        then pu_last_seen r else pu_last_seen excluded)\<rparr>"

fun upsert_user :: "plex_user \<Rightarrow> plex_user list \<Rightarrow> plex_user list" where
  "upsert_user excluded [] = [excluded]"
| "upsert_user excluded (r # rs) =
     (if pu_id r = pu_id excluded then do_update_user excluded r # rs
      else r # upsert_user excluded rs)"

text \<open>
  \<^verbatim>\<open>INSERT INTO user_ip_history (user_id, ip, first_seen, last_seen) VALUES (?, ?, ?, ?)
  ON CONFLICT(user_id, ip) DO UPDATE SET
  last_seen=CASE WHEN user_ip_history.last_seen > excluded.last_seen
                 THEN user_ip_history.last_seen ELSE excluded.last_seen END\<close>
\<close>

definition do_update_ip :: "ip_history \<Rightarrow> ip_history \<Rightarrow> ip_history" where
  "do_update_ip excluded r =
     r\<lparr>uih_last_seen := (if uih_last_seen r > uih_last_seen excluded
                         then uih_last_seen r else uih_last_seen excluded)\<rparr>"

fun upsert_ip :: "ip_history \<Rightarrow> ip_history list \<Rightarrow> ip_history list" where
  "upsert_ip excluded [] = [excluded]"
| "upsert_ip excluded (r # rs) =
     (if uih_user_id r = uih_user_id excluded \<and> uih_ip r = uih_ip excluded
      then do_update_ip excluded r # rs
      else r # upsert_ip excluded rs)"

subsection \<open>The environment: wall clock and store failures\<close>

text \<open>
  The steps of a call that can fail. \<^verbatim>\<open>tx.Commit()\<close> fails in two ways:
  \<open>CommitCtx\<close> is the context found done, when \<^verbatim>\<open>Commit\<close> returns before it marks the
  transaction done; \<open>Commit\<close> is the \<^verbatim>\<open>COMMIT\<close> of the driver rejected, after the
  transaction has been marked done.
\<close>

datatype stmt =
  BeginTx | UserUpsert nat | IPUpsert nat | CommitCtx | Commit
  | SummaryQuery | UsernameQuery | HistoryQuery

datatype ingest_error = ErrBegin | ErrUserUpsert nat | ErrIPUpsert nat | ErrCtx | ErrCommit

text \<open>
  \<open>now i\<close> is the reading of \<^verbatim>\<open>time.Now()\<close> (Unix seconds) when the loop reaches
  item \<open>i\<close>; \<open>fails s\<close> says whether step \<open>s\<close> of this call fails.
\<close>

record env =
  now :: "nat \<Rightarrow> int"
  fails :: "stmt \<Rightarrow> bool"

subsection \<open>\<^verbatim>\<open>ingestItems\<close>\<close>

definition effective_ts :: "env \<Rightarrow> nat \<Rightarrow> TautulliItem \<Rightarrow> int" where
  "effective_ts e i it =
     (case Date it of
        Some d \<Rightarrow> if d > 0 then d else now e i
      | None \<Rightarrow> now e i)"

definition has_ip :: "TautulliItem \<Rightarrow> bool" where
  "has_ip it = (case IPAddress it of Some a \<Rightarrow> a \<noteq> [] | None \<Rightarrow> False)"

definition user_of_item :: "TautulliItem \<Rightarrow> string \<Rightarrow> plex_user" where
  "user_of_item it tsStr =
     \<lparr>pu_id = UserID it, pu_username = User it, pu_friendly_name = FriendlyName it,
      pu_user_thumb = UserThumb it, pu_last_seen = tsStr\<rparr>"

definition ip_of_item :: "TautulliItem \<Rightarrow> string \<Rightarrow> ip_history" where
  "ip_of_item it tsStr =
     \<lparr>uih_user_id = UserID it, uih_ip = the (IPAddress it),
      uih_first_seen = tsStr, uih_last_seen = tsStr\<rparr>"

text \<open>
  The loop over the batch inside the transaction. It returns the working state of
  the transaction and, when a statement failed, the error of the early return.
\<close>

fun ingestLoop :: "env \<Rightarrow> nat \<Rightarrow> store \<Rightarrow> TautulliItem list \<Rightarrow> ingest_error option \<times> store" where
  "ingestLoop e i tx [] = (None, tx)"
| "ingestLoop e i tx (it # rest) =
     (let tsStr = formatRFC3339 (effective_ts e i it) in
      if fails e (UserUpsert i) then (Some (ErrUserUpsert i), tx)
      else
        let tx1 = tx\<lparr>plex_users := upsert_user (user_of_item it tsStr) (plex_users tx)\<rparr> in
        if has_ip it then
          if fails e (IPUpsert i) then (Some (ErrIPUpsert i), tx1)
          else ingestLoop e (Suc i)
                 (tx1\<lparr>user_ip_history := upsert_ip (ip_of_item it tsStr) (user_ip_history tx1)\<rparr>)
                 rest
        else ingestLoop e (Suc i) tx1 rest)"

text \<open>
  \<^verbatim>\<open>BeginTx\<close>, the loop, \<^verbatim>\<open>Commit\<close>, with \<^verbatim>\<open>tx.Rollback()\<close> deferred. The result is
  the error, if any, and the store that the connection shows after the call (the pool
  has one connection, \<^verbatim>\<open>SetMaxOpenConns(1)\<close>).
  \<^item> When \<^verbatim>\<open>BeginTx\<close> fails there is no transaction.
  \<^item> When a statement of the loop fails, or \<^verbatim>\<open>Commit\<close> finds the context done, the
    transaction is not marked done and the deferred \<^verbatim>\<open>Rollback\<close> discards its working
    state.
  \<^item> When the driver rejects the \<^verbatim>\<open>COMMIT\<close>, \<^verbatim>\<open>database/sql\<close> has already marked the
    transaction done: the deferred \<^verbatim>\<open>Rollback\<close> returns \<^verbatim>\<open>ErrTxDone\<close> and does nothing,
    and the connection stays in the open transaction, whose working state it shows.
\<close>

definition ingestItems :: "env \<Rightarrow> store \<Rightarrow> TautulliItem list \<Rightarrow> ingest_error option \<times> store" where
  "ingestItems e db arr =
     (if fails e BeginTx then (Some ErrBegin, db)
      else case ingestLoop e 0 db arr of
             (Some err, tx) \<Rightarrow> (Some err, db)
           | (None, tx) \<Rightarrow>
               if fails e CommitCtx then (Some ErrCtx, db)
               else if fails e Commit then (Some ErrCommit, tx)
               else (None, tx))"

subsection \<open>\<^verbatim>\<open>handleIngest\<close>\<close>

text \<open>
  The body of the request is modelled by what the two \<^verbatim>\<open>json.Unmarshal\<close> calls make
  of it: \<open>ArrayBody arr\<close> when the body decodes as a list of items (the JSON
  \<^verbatim>\<open>null\<close> decodes as the empty list), \<open>ObjectBody arr\<close> when it does not but decodes
  as an object, \<open>arr\<close> being its \<^verbatim>\<open>data\<close> field (empty when the field is missing),
  \<open>BadJSON\<close> when both calls fail, \<open>Unreadable\<close> when \<^verbatim>\<open>io.ReadAll\<close> fails.
\<close>

datatype ingest_body =
  Unreadable | ArrayBody "TautulliItem list" | ObjectBody "TautulliItem list" | BadJSON

record request =
  req_method :: string
  req_authorization :: string
  req_body :: ingest_body

text \<open>
  \<open>Ingested n\<close> is the response \<^verbatim>\<open>{"ingested":n}\<close>; \<open>HttpError code msg\<close> is
  \<^verbatim>\<open>http.Error(w, msg, code)\<close> with a text that the code fixes; \<open>ReadFailed\<close> is the
  status 400 that carries the text of the read error; \<open>IngestFailed err\<close> is the
  status 500 that carries the text of the error of \<^verbatim>\<open>ingestItems\<close>.
\<close>

datatype ingest_response =
  Ingested nat | HttpError nat string | ReadFailed | IngestFailed ingest_error

definition TrimPrefix :: "string \<Rightarrow> string \<Rightarrow> string" where
  "TrimPrefix s p = (if take (length p) s = p then drop (length p) s else s)"

definition respond_ingest :: "env \<Rightarrow> store \<Rightarrow> TautulliItem list \<Rightarrow> ingest_response \<times> store" where
  "respond_ingest e db arr =
     (if length arr = 0 then (Ingested 0, db)
      else case ingestItems e db arr of
             (Some err, db') \<Rightarrow> (IngestFailed err, db')
           | (None, db') \<Rightarrow> (Ingested (length arr), db'))"

text \<open>\<open>want\<close> is the environment variable \<^verbatim>\<open>INGEST_TOKEN\<close>.\<close>

definition handleIngest :: "string \<Rightarrow> env \<Rightarrow> store \<Rightarrow> request \<Rightarrow> ingest_response \<times> store" where
  "handleIngest want e db r =
     (if req_method r \<noteq> ''POST'' then (HttpError 405 ''POST only'', db)
      else if want \<noteq> [] \<and> TrimPrefix (req_authorization r) ''Bearer '' \<noteq> want
      then (HttpError 401 ''unauthorized'', db)
      else case req_body r of
             Unreadable \<Rightarrow> (ReadFailed, db)
           | ArrayBody arr \<Rightarrow> respond_ingest e db arr
           | ObjectBody arr \<Rightarrow> respond_ingest e db arr
           | BadJSON \<Rightarrow> (HttpError 400 ''bad json'', db))"

subsection \<open>The view \<^verbatim>\<open>users_last_ip\<close>\<close>

text \<open>
  \<^verbatim>\<open>ORDER BY last_seen DESC\<close>: a stable insertion sort, greatest \<^verbatim>\<open>last_seen\<close> first.
  The statement names no second key.
\<close>

fun insert_desc :: "ip_history \<Rightarrow> ip_history list \<Rightarrow> ip_history list" where
  "insert_desc x [] = [x]"
| "insert_desc x (y # ys) =
     (if uih_last_seen y > uih_last_seen x then y # insert_desc x ys else x # y # ys)"

definition order_by_last_seen_desc :: "ip_history list \<Rightarrow> ip_history list" where
  "order_by_last_seen_desc rs = foldr insert_desc rs []"

definition history_of :: "store \<Rightarrow> int \<Rightarrow> ip_history list" where
  "history_of st uid = filter (\<lambda>r. uih_user_id r = uid) (user_ip_history st)"

text \<open>
  \<^verbatim>\<open>SELECT ... FROM user_ip_history uih WHERE uih.user_id = pu.id
  ORDER BY uih.last_seen DESC LIMIT 1\<close>: the first row of the ordered history, if any.
\<close>

definition latest_row :: "store \<Rightarrow> int \<Rightarrow> ip_history option" where
  "latest_row st uid =
     (case order_by_last_seen_desc (history_of st uid) of [] \<Rightarrow> None | r # _ \<Rightarrow> Some r)"

record users_last_ip_row =
  uli_user_id :: int
  uli_username :: string
  uli_friendly_name :: "string option"
  uli_last_ip :: "string option"
  uli_updated_at :: "string option"

definition users_last_ip :: "store \<Rightarrow> users_last_ip_row list" where
  "users_last_ip st =
     map (\<lambda>pu. \<lparr>uli_user_id = pu_id pu, uli_username = pu_username pu,
                uli_friendly_name = pu_friendly_name pu,
                uli_last_ip = map_option uih_ip (latest_row st (pu_id pu)),
                uli_updated_at = map_option uih_last_seen (latest_row st (pu_id pu))\<rparr>)
         (plex_users st)"

subsection \<open>\<^verbatim>\<open>handleSummary\<close>\<close>

text \<open>
  SQLite's \<^verbatim>\<open>LIKE\<close>: \<^verbatim>\<open>%\<close> matches any run of characters, \<^verbatim>\<open>_\<close> matches one
  character, every other character matches itself, upper and lower case ASCII
  letters being equal. The statement declares no escape character.
\<close>

definition toLower :: "char \<Rightarrow> char" where
  "toLower c =
     (case map_of (zip ''ABCDEFGHIJKLMNOPQRSTUVWXYZ'' ''abcdefghijklmnopqrstuvwxyz'') c of
        Some l \<Rightarrow> l
      | None \<Rightarrow> c)"

fun like :: "string \<Rightarrow> string \<Rightarrow> bool" where
  "like [] [] = True"
| "like [] (c # s) = False"
| "like (p # ps) [] = (p = CHR ''%'' \<and> like ps [])"
| "like (p # ps) (c # s) =
     (if p = CHR ''%'' then like ps (c # s) \<or> like (p # ps) s
      else (p = CHR ''_'' \<or> toLower p = toLower c) \<and> like ps s)"

text \<open>\<^verbatim>\<open>strings.TrimSpace\<close> on ASCII: tab, line feed, vertical tab, form feed, carriage return, space.\<close>

definition isSpace :: "char \<Rightarrow> bool" where
  "isSpace c = (c \<in> {CHR 0x09, CHR 0x0A, CHR 0x0B, CHR 0x0C, CHR 0x0D, CHR 0x20})"

definition TrimSpace :: "string \<Rightarrow> string" where
  "TrimSpace s = rev (dropWhile isSpace (rev (dropWhile isSpace s)))"

record summary_row =
  row_UserID :: int
  row_Username :: string
  row_FriendlyName :: "string option"
  row_LastIP :: "string option"
  row_UpdatedAt :: "string option"

text \<open>\<^verbatim>\<open>FROM users_last_ip uli JOIN plex_users pu ON pu.id = uli.user_id\<close>\<close>

definition summary_join :: "store \<Rightarrow> summary_row list" where
  "summary_join st =
     concat (map (\<lambda>uli. map (\<lambda>pu. \<lparr>row_UserID = pu_id pu, row_Username = pu_username pu,
                                     row_FriendlyName = pu_friendly_name pu,
                                     row_LastIP = uli_last_ip uli,
                                     row_UpdatedAt = uli_updated_at uli\<rparr>)
                            (filter (\<lambda>pu. pu_id pu = uli_user_id uli) (plex_users st)))
                 (users_last_ip st))"

definition IFNULL :: "string option \<Rightarrow> string \<Rightarrow> string" where
  "IFNULL v d = (case v of Some x \<Rightarrow> x | None \<Rightarrow> d)"

text \<open>
  \<^verbatim>\<open>WHERE pu.username LIKE ? OR IFNULL(uli.last_ip,'') LIKE ? OR
  IFNULL(pu.friendly_name,'') LIKE ?\<close>, each parameter being \<^verbatim>\<open>"%" + q + "%"\<close>.
\<close>

definition summary_where :: "string \<Rightarrow> summary_row \<Rightarrow> bool" where
  "summary_where q r =
     (let p = ''%'' @ q @ ''%''
      in like p (row_Username r) \<or> like p (IFNULL (row_LastIP r) [])
         \<or> like p (IFNULL (row_FriendlyName r) []))"

text \<open>\<^verbatim>\<open>ORDER BY pu.username ASC\<close>: a stable insertion sort.\<close>

fun insert_asc :: "summary_row \<Rightarrow> summary_row list \<Rightarrow> summary_row list" where
  "insert_asc x [] = [x]"
| "insert_asc x (y # ys) =
     (if row_Username y < row_Username x then y # insert_asc x ys else x # y # ys)"

definition order_by_username_asc :: "summary_row list \<Rightarrow> summary_row list" where
  "order_by_username_asc rs = foldr insert_asc rs []"

definition summary_query :: "store \<Rightarrow> string \<Rightarrow> summary_row list" where
  "summary_query st q =
     order_by_username_asc
       (if q \<noteq> [] then filter (summary_where q) (summary_join st) else summary_join st)"

text \<open>
  \<open>Rendered x\<close> is the template executed on \<open>x\<close>; \<open>PageError code msg\<close> is
  \<^verbatim>\<open>http.Error(w, msg, code)\<close> with a text that the code fixes; \<open>QueryFailed\<close> is the
  status 500 that carries the text of the error of the query.
\<close>

datatype 'a page = Rendered 'a | PageError nat string | QueryFailed

text \<open>\<open>raw\<close> is the query parameter \<^verbatim>\<open>q\<close> (empty when absent).\<close>

definition handleSummary :: "env \<Rightarrow> store \<Rightarrow> string \<Rightarrow> summary_row list page" where
  "handleSummary e st raw =
     (let q = TrimSpace raw
      in if fails e SummaryQuery then QueryFailed
         else Rendered (summary_query st q))"

subsection \<open>\<^verbatim>\<open>handleUserIPs\<close>\<close>

text \<open>\<^verbatim>\<open>strconv.ParseInt(s, 10, 64)\<close>: an optional sign, then decimal digits, in the range of \<^verbatim>\<open>int64\<close>.\<close>

definition digit_val :: "char \<Rightarrow> nat option" where
  "digit_val c = map_of (zip ''0123456789'' [0, 1, 2, 3, 4, 5, 6, 7, 8, 9]) c"

fun parse_digits :: "nat \<Rightarrow> string \<Rightarrow> nat option" where
  "parse_digits acc [] = Some acc"
| "parse_digits acc (c # cs) =
     (case digit_val c of None \<Rightarrow> None | Some v \<Rightarrow> parse_digits (10 * acc + v) cs)"

definition ParseInt :: "string \<Rightarrow> int option" where
  "ParseInt s =
     (let neg = (s \<noteq> [] \<and> hd s = CHR ''-'');
          ds = (if s \<noteq> [] \<and> (hd s = CHR ''+'' \<or> hd s = CHR ''-'') then tl s else s)
      in if ds = [] then None
         else case parse_digits 0 ds of
                None \<Rightarrow> None
              | Some n \<Rightarrow>
                  if neg then (if n \<le> 2 ^ 63 then Some (- int n) else None)
                  else (if n < 2 ^ 63 then Some (int n) else None))"

text \<open>\<^verbatim>\<open>fmt.Sprintf("User %d", uid)\<close>\<close>

definition placeholder :: "int \<Rightarrow> string" where
  "placeholder uid = ''User '' @ appendInt uid 0"

record IPRow =
  IP :: string
  FirstSeen :: string
  LastSeen :: string

record user_ips_page =
  Username :: string
  IPs :: "IPRow list"

text \<open>
  \<^verbatim>\<open>SELECT username FROM plex_users WHERE id = ?\<close> scanned into a string that starts
  empty; the error of the scan is dropped, so a missing row and a failed query both
  leave the string empty.
\<close>

definition username_query :: "env \<Rightarrow> store \<Rightarrow> int \<Rightarrow> string" where
  "username_query e st uid =
     (if fails e UsernameQuery then []
      else case filter (\<lambda>pu. pu_id pu = uid) (plex_users st) of
             [] \<Rightarrow> []
           | pu # _ \<Rightarrow> pu_username pu)"

text \<open>\<^verbatim>\<open>SELECT ip, first_seen, last_seen FROM user_ip_history WHERE user_id = ? ORDER BY last_seen DESC\<close>\<close>

definition history_query :: "store \<Rightarrow> int \<Rightarrow> IPRow list" where
  "history_query st uid =
     map (\<lambda>r. \<lparr>IP = uih_ip r, FirstSeen = uih_first_seen r, LastSeen = uih_last_seen r\<rparr>)
         (order_by_last_seen_desc (history_of st uid))"

text \<open>\<open>path\<close> is the path of the URL.\<close>

definition handleUserIPs :: "env \<Rightarrow> store \<Rightarrow> string \<Rightarrow> user_ips_page page" where
  "handleUserIPs e st path =
     (case ParseInt (TrimPrefix path ''/partial/user/'') of
        None \<Rightarrow> PageError 400 ''bad id''
      | Some uid \<Rightarrow>
          let username = username_query e st uid;
              username = (if username = [] then placeholder uid else username)
          in if fails e HistoryQuery then QueryFailed
             else Rendered \<lparr>Username = username, IPs = history_query st uid\<rparr>)"

subsection \<open>Vocabulary of the properties\<close>

text \<open>The row of a user, and the row of a (user, address) pair, as a lookup by key finds it.\<close>

definition find_user :: "store \<Rightarrow> int \<Rightarrow> plex_user option" where
  "find_user st uid = find (\<lambda>pu. pu_id pu = uid) (plex_users st)"

definition find_ip :: "store \<Rightarrow> int \<Rightarrow> string \<Rightarrow> ip_history option" where
  "find_ip st uid a = find (\<lambda>r. uih_user_id r = uid \<and> uih_ip r = a) (user_ip_history st)"

text \<open>An item that carries the address \<open>a\<close> for the user \<open>uid\<close>.\<close>

definition mentions :: "TautulliItem \<Rightarrow> int \<Rightarrow> string \<Rightarrow> bool" where
  "mentions it uid a = (UserID it = uid \<and> IPAddress it = Some a \<and> a \<noteq> [])"

text \<open>Statement \<open>i\<close> of the batch is rejected by the store (\<open>k\<close> is the index of the first item).\<close>

definition stmt_fails :: "env \<Rightarrow> nat \<Rightarrow> TautulliItem list \<Rightarrow> nat \<Rightarrow> bool" where
  "stmt_fails e k arr i =
     (fails e (UserUpsert (k + i)) \<or> (has_ip (arr ! i) \<and> fails e (IPUpsert (k + i))))"

text \<open>Concrete observations and environments for the examples.\<close>

definition obs :: "int \<Rightarrow> string \<Rightarrow> string option \<Rightarrow> int option \<Rightarrow> TautulliItem" where
  "obs uid name a d =
     \<lparr>UserID = uid, User = name, FriendlyName = None, UserThumb = None, IPAddress = a, Date = d\<rparr>"

definition quiet_env :: "int \<Rightarrow> env" where
  "quiet_env t = \<lparr>now = (\<lambda>_. t), fails = (\<lambda>_. False)\<rparr>"

definition faulty_env :: "int \<Rightarrow> stmt \<Rightarrow> env" where
  "faulty_env t s = \<lparr>now = (\<lambda>_. t), fails = (\<lambda>x. x = s)\<rparr>"

definition seen_once :: store where
  "seen_once =
     \<lparr>plex_users = [\<lparr>pu_id = 1, pu_username = ''alice'', pu_friendly_name = None,
                      pu_user_thumb = None, pu_last_seen = ''1970-01-01T00:16:40Z''\<rparr>],
      user_ip_history = [\<lparr>uih_user_id = 1, uih_ip = ''10.0.0.5'',
                           uih_first_seen = ''1970-01-01T00:16:40Z'',
                           uih_last_seen = ''1970-01-01T00:16:40Z''\<rparr>]\<rparr>"

text \<open>A request that passes the method and token checks of the ingest handler.\<close>

definition admitted :: "string \<Rightarrow> request \<Rightarrow> bool" where
  "admitted want r =
     (req_method r = ''POST'' \<and> (want = [] \<or> TrimPrefix (req_authorization r) ''Bearer '' = want))"

definition post_request :: "ingest_body \<Rightarrow> request" where
  "post_request b = \<lparr>req_method = ''POST'', req_authorization = [], req_body = b\<rparr>"


text \<open>The row of the summary listing that a registry row gives rise to.\<close>

definition summary_row_of :: "store \<Rightarrow> plex_user \<Rightarrow> summary_row" where
  "summary_row_of st pu =
     \<lparr>row_UserID = pu_id pu, row_Username = pu_username pu,
      row_FriendlyName = pu_friendly_name pu,
      row_LastIP = map_option uih_ip (latest_row st (pu_id pu)),
      row_UpdatedAt = map_option uih_last_seen (latest_row st (pu_id pu))\<rparr>"

text \<open>Two observations of user 7, one without an address and one with an empty address.\<close>

definition no_address_batch :: "TautulliItem list" where
  "no_address_batch = [obs 7 ''carol'' None (Some 100), obs 7 ''carol'' (Some []) (Some 300)]"








subsection \<open>The loop as a fold over stamped items\<close>

text \<open>
  A batch with the timestamp string that the loop computes for each item; the
  effect of one item on the transaction when no statement fails; the effect of a
  stamped batch.
\<close>

definition stamped :: "env \<Rightarrow> nat \<Rightarrow> TautulliItem list \<Rightarrow> (TautulliItem \<times> string) list" where
  "stamped e i arr =
     map (\<lambda>(j, it). (it, formatRFC3339 (effective_ts e j it))) (zip [i ..< i + length arr] arr)"

definition apply_stamped :: "TautulliItem \<times> string \<Rightarrow> store \<Rightarrow> store" where
  "apply_stamped x tx =
     (let tx1 = tx\<lparr>plex_users := upsert_user (user_of_item (fst x) (snd x)) (plex_users tx)\<rparr>
      in if has_ip (fst x)
         then tx1\<lparr>user_ip_history := upsert_ip (ip_of_item (fst x) (snd x)) (user_ip_history tx1)\<rparr>
         else tx1)"

definition run_stamped :: "(TautulliItem \<times> string) list \<Rightarrow> store \<Rightarrow> store" where
  "run_stamped xs tx = foldl (\<lambda>tx x. apply_stamped x tx) tx xs"

text \<open>What the two upserts make of the row that a key finds, if any.\<close>

fun merge_user :: "plex_user \<Rightarrow> plex_user option \<Rightarrow> plex_user" where
  "merge_user x None = x"
| "merge_user x (Some r) = do_update_user x r"

fun merge_ip :: "ip_history \<Rightarrow> ip_history option \<Rightarrow> ip_history" where
  "merge_ip x None = x"
| "merge_ip x (Some r) = do_update_ip x r"

definition fold_user :: "(TautulliItem \<times> string) list \<Rightarrow> plex_user option \<Rightarrow> plex_user option" where
  "fold_user ys row = foldl (\<lambda>row x. Some (merge_user (user_of_item (fst x) (snd x)) row)) row ys"

definition fold_ip :: "(TautulliItem \<times> string) list \<Rightarrow> ip_history option \<Rightarrow> ip_history option" where
  "fold_ip ys row = foldl (\<lambda>row x. Some (merge_ip (ip_of_item (fst x) (snd x)) row)) row ys"

text \<open>The keys of both tables are unique, as the schema declares them.\<close>

definition wf_store :: "store \<Rightarrow> bool" where
  "wf_store st =
     (distinct (map pu_id (plex_users st))
      \<and> distinct (map (\<lambda>r. (uih_user_id r, uih_ip r)) (user_ip_history st)))"

text \<open>An item that carries an explicit positive date, and an environment without failures.\<close>

definition dated :: "TautulliItem \<Rightarrow> bool" where
  "dated it = (case Date it of Some d \<Rightarrow> d > 0 | None \<Rightarrow> False)"

definition reliable :: "env \<Rightarrow> bool" where
  "reliable e = (\<forall>s. \<not> fails e s)"

text \<open>A batch of three dated observations, and a batch of one observation without a date.\<close>

definition dated_batch :: "TautulliItem list" where
  "dated_batch =
     [obs 1 ''alice'' (Some ''10.0.0.5'') (Some 1000), obs 1 ''alicia'' (Some ''10.0.0.5'') (Some 500),
      obs 2 ''bob'' None (Some 2000)]"

definition undated_batch :: "TautulliItem list" where
  "undated_batch = [obs 1 ''alice'' (Some ''10.0.0.5'') None]"

section \<open>Properties\<close>

subsection \<open>Evaluation rules and lemmas on the upserts\<close>

lemmas fmt_eval = formatRFC3339_def formatClock_def absYear_def split100_def split4_def split1_def
  cut4_def monthDay_def isLeap_def daysBefore_def appendInt_def utoa.simps digit_char_def

lemmas ingest_eval = ingestItems_def effective_ts_def has_ip_def user_of_item_def ip_of_item_def
  do_update_user_def do_update_ip_def empty_store_def obs_def quiet_env_def faulty_env_def Let_def

lemma do_update_ip_fields [simp]:
  "uih_user_id (do_update_ip x r) = uih_user_id r"
  "uih_ip (do_update_ip x r) = uih_ip r"
  "uih_first_seen (do_update_ip x r) = uih_first_seen r"
  by (simp_all add: do_update_ip_def)

lemma do_update_ip_last_seen:
  "uih_last_seen (do_update_ip x r) = max (uih_last_seen r) (uih_last_seen x)"
  by (auto simp: do_update_ip_def max_def)

lemma find_upsert_ip:
  "find (\<lambda>r. uih_user_id r = uid \<and> uih_ip r = a) (upsert_ip x rs) =
     (if uih_user_id x = uid \<and> uih_ip x = a
      then Some (case find (\<lambda>r. uih_user_id r = uid \<and> uih_ip r = a) rs of
                   None \<Rightarrow> x | Some r \<Rightarrow> do_update_ip x r)
      else find (\<lambda>r. uih_user_id r = uid \<and> uih_ip r = a) rs)"
  by (induction rs) auto

lemma ingestItems_cases:
  "snd (ingestItems e db arr) = db \<or> snd (ingestItems e db arr) = snd (ingestLoop e 0 db arr)"
  by (simp add: ingestItems_def split: prod.splits option.splits)

lemma upsert_ip_find_Some:
  assumes "find (\<lambda>r. uih_user_id r = uid \<and> uih_ip r = a) rs = Some r"
  shows "\<exists>r2. find (\<lambda>r. uih_user_id r = uid \<and> uih_ip r = a) (upsert_ip x rs) = Some r2
           \<and> uih_first_seen r2 = uih_first_seen r \<and> uih_last_seen r \<le> uih_last_seen r2"
  using assms by (simp add: find_upsert_ip do_update_ip_last_seen)

lemma ingestLoop_find_ip:
  "find_ip tx uid a = Some r \<Longrightarrow>
   \<exists>r'. find_ip (snd (ingestLoop e i tx arr)) uid a = Some r'
        \<and> uih_first_seen r' = uih_first_seen r \<and> uih_last_seen r \<le> uih_last_seen r'"
proof (induction arr arbitrary: i tx r)
  case Nil
  then show ?case by simp
next
  case (Cons it rest)
  let ?ts = "formatRFC3339 (effective_ts e i it)"
  let ?tx1 = "tx\<lparr>plex_users := upsert_user (user_of_item it ?ts) (plex_users tx)\<rparr>"
  let ?tx2 = "?tx1\<lparr>user_ip_history := upsert_ip (ip_of_item it ?ts) (user_ip_history ?tx1)\<rparr>"
  have 1: "find_ip ?tx1 uid a = Some r"
    using Cons.prems by (simp add: find_ip_def)
  obtain r2 where 2: "find_ip ?tx2 uid a = Some r2" "uih_first_seen r2 = uih_first_seen r"
    "uih_last_seen r \<le> uih_last_seen r2"
    using upsert_ip_find_Some [of uid a "user_ip_history tx" r "ip_of_item it ?ts"] Cons.prems
    by (auto simp: find_ip_def)
  from Cons.IH [OF 2(1), of "Suc i"] 2
  have 3: "\<exists>r'. find_ip (snd (ingestLoop e (Suc i) ?tx2 rest)) uid a = Some r'
        \<and> uih_first_seen r' = uih_first_seen r \<and> uih_last_seen r \<le> uih_last_seen r'"
    by (metis order_trans)
  show ?case
    using Cons.prems 1 3 Cons.IH [OF 1, of "Suc i"]
    by (simp add: Let_def)
qed

lemma ingestLoop_fails:
  "\<exists>i < length arr. stmt_fails e k arr i \<Longrightarrow> fst (ingestLoop e k tx arr) \<noteq> None"
proof (induction arr arbitrary: k tx)
  case Nil
  then show ?case by simp
next
  case (Cons it rest)
  then obtain i where i: "i < length (it # rest)" "stmt_fails e k (it # rest) i" by blast
  show ?case
  proof (cases i)
    case 0
    with i show ?thesis by (auto simp: stmt_fails_def Let_def)
  next
    case (Suc j)
    with i have "\<exists>j < length rest. stmt_fails e (Suc k) rest j"
      by (auto simp: stmt_fails_def)
    then have "\<And>tx'. fst (ingestLoop e (Suc k) tx' rest) \<noteq> None"
      using Cons.IH by blast
    then show ?thesis by (simp add: Let_def)
  qed
qed

subsection \<open>Atomicity of a batch\<close>

text \<open>
  Claim C4. A batch in which a statement of some item is rejected by the store ends
  with an error and leaves the store exactly as it was before the call: whatever the
  earlier items of the batch wrote into the transaction is rolled back. The same holds
  of the ingest handler, which reports the error of the item and returns the store
  unchanged.
\<close>

theorem ingest_atomic:
  "((\<exists>i < length arr. stmt_fails e 0 arr i) \<longrightarrow>
        fst (ingestItems e db arr) \<noteq> None \<and> snd (ingestItems e db arr) = db)
   \<and> (fst (ingestItems e db arr) = Some (ErrUserUpsert i)
        \<or> fst (ingestItems e db arr) = Some (ErrIPUpsert i) \<longrightarrow>
        snd (ingestItems e db arr) = db)
   \<and> (fst (handleIngest want e db r) = IngestFailed (ErrUserUpsert i)
        \<or> fst (handleIngest want e db r) = IngestFailed (ErrIPUpsert i) \<longrightarrow>
        snd (handleIngest want e db r) = db)"
proof (intro conjI impI)
  have 1: "snd (ingestItems e db xs) = db"
    if "fst (ingestItems e db xs) = Some err" "err \<noteq> ErrCommit" for xs err
    using that by (auto simp: ingestItems_def split: prod.splits option.splits if_splits)
  show "fst (ingestItems e db arr) \<noteq> None" if "\<exists>i < length arr. stmt_fails e 0 arr i"
    using ingestLoop_fails [OF that, of db]
    by (auto simp: ingestItems_def split: prod.splits option.splits)
  show "snd (ingestItems e db arr) = db" if "\<exists>i < length arr. stmt_fails e 0 arr i"
    using ingestLoop_fails [OF that, of db]
    by (auto simp: ingestItems_def split: prod.splits option.splits)
  show "snd (ingestItems e db arr) = db"
    if "fst (ingestItems e db arr) = Some (ErrUserUpsert i)
        \<or> fst (ingestItems e db arr) = Some (ErrIPUpsert i)"
    using that 1 [of arr] by auto
  show "snd (handleIngest want e db r) = db"
    if h: "fst (handleIngest want e db r) = IngestFailed (ErrUserUpsert i)
        \<or> fst (handleIngest want e db r) = IngestFailed (ErrIPUpsert i)"
  proof -
    have "snd (respond_ingest e db xs) = db"
      if "fst (respond_ingest e db xs) = IngestFailed err" "err \<noteq> ErrCommit" for xs err
      using that 1 [of xs err]
      by (auto simp: respond_ingest_def split: prod.splits option.splits if_splits)
    then show ?thesis
      using h by (auto simp: handleIngest_def split: if_splits ingest_body.splits)
  qed
qed

text \<open>
  The second statement of a batch of two fails: the call returns that error and the
  empty store it started from, although the transaction had written both users.
\<close>

theorem ingest_atomic_witness:
  "stmt_fails (faulty_env 2000 (IPUpsert 1)) 0
     [obs 1 ''alice'' (Some ''10.0.0.5'') (Some 1000), obs 2 ''bob'' (Some ''10.0.0.6'') (Some 500)] 1
   \<and> ingestItems (faulty_env 2000 (IPUpsert 1)) empty_store
       [obs 1 ''alice'' (Some ''10.0.0.5'') (Some 1000), obs 2 ''bob'' (Some ''10.0.0.6'') (Some 500)]
     = (Some (ErrIPUpsert 1), empty_store)
   \<and> length (plex_users (snd (ingestLoop (faulty_env 2000 (IPUpsert 1)) 0 empty_store
       [obs 1 ''alice'' (Some ''10.0.0.5'') (Some 1000), obs 2 ''bob'' (Some ''10.0.0.6'') (Some 500)]))) = 2"
proof -
  let ?e = "faulty_env 2000 (IPUpsert 1)"
  let ?arr = "[obs 1 ''alice'' (Some ''10.0.0.5'') (Some 1000), obs 2 ''bob'' (Some ''10.0.0.6'') (Some 500)]"
  have h: "stmt_fails ?e 0 ?arr 1"
    by (simp add: stmt_fails_def ingest_eval)
  then have ex: "\<exists>i < length ?arr. stmt_fails ?e 0 ?arr i"
    by (intro exI [of _ 1]) simp
  have imp: "(\<exists>i < length ?arr. stmt_fails ?e 0 ?arr i) \<longrightarrow>
        fst (ingestItems ?e empty_store ?arr) \<noteq> None \<and> snd (ingestItems ?e empty_store ?arr) = empty_store"
    using ingest_atomic [of ?arr ?e empty_store 0 "[]" "post_request BadJSON"] by (elim conjE)
  have a: "snd (ingestItems ?e empty_store ?arr) = empty_store"
    using mp [OF imp ex] by (elim conjE)
  have b: "fst (ingestItems ?e empty_store ?arr) = Some (ErrIPUpsert 1)"
    by (simp add: ingest_eval)
  have c: "length (plex_users (snd (ingestLoop ?e 0 empty_store ?arr))) = 2"
    by (simp add: ingest_eval)
  have "ingestItems ?e empty_store ?arr = (Some (ErrIPUpsert 1), empty_store)"
    using a b by (simp add: prod_eq_iff)
  then show ?thesis using h c by (intro conjI)
qed

text \<open>
  The claim is about the statements of the items. The rejection of the \<^verbatim>\<open>COMMIT\<close>
  itself is another matter: the transaction is already marked done, nothing rolls it
  back, and the connection goes on showing what the batch wrote.
\<close>

lemma commit_rejected:
  "\<not> fails e BeginTx \<Longrightarrow> fst (ingestLoop e 0 db arr) = None \<Longrightarrow> \<not> fails e CommitCtx \<Longrightarrow>
   fails e Commit \<Longrightarrow> ingestItems e db arr = (Some ErrCommit, snd (ingestLoop e 0 db arr))"
  by (auto simp: ingestItems_def split: prod.splits option.splits)

lemma fmt_500: "formatRFC3339 500 = ''1970-01-01T00:08:20Z''"
  by (simp add: fmt_eval)

lemma fmt_1000: "formatRFC3339 1000 = ''1970-01-01T00:16:40Z''"
  by (simp add: fmt_eval)

lemma fmt_2000: "formatRFC3339 2000 = ''1970-01-01T00:33:20Z''"
  by (simp add: fmt_eval)

lemma ingestItems_find_ip:
  assumes "find_ip db uid a = Some r"
  shows "\<exists>r'. find_ip (snd (ingestItems e db arr)) uid a = Some r'
        \<and> uih_first_seen r' = uih_first_seen r \<and> uih_last_seen r \<le> uih_last_seen r'"
  using ingestItems_cases [of e db arr] ingestLoop_find_ip [OF assms, of e 0 arr] assms
  by auto

lemma ingestLoop_ok_step:
  assumes "fst (ingestLoop e i tx (it # rest)) = None"
  shows "\<not> fails e (UserUpsert i)" "has_ip it \<Longrightarrow> \<not> fails e (IPUpsert i)"
  using assms by (auto simp: Let_def split: if_splits)

lemma ingestLoop_creates:
  assumes "find_ip tx uid a = None"
    and "fst (ingestLoop e i tx (pre @ it # post)) = None"
    and "\<forall>x \<in> set pre. \<not> mentions x uid a"
    and "mentions it uid a"
  shows "\<exists>r'. find_ip (snd (ingestLoop e i tx (pre @ it # post))) uid a = Some r'
           \<and> uih_first_seen r' = formatRFC3339 (effective_ts e (i + length pre) it)"
  using assms
proof (induction pre arbitrary: i tx)
  case Nil
  let ?ts = "formatRFC3339 (effective_ts e i it)"
  let ?tx1 = "tx\<lparr>plex_users := upsert_user (user_of_item it ?ts) (plex_users tx)\<rparr>"
  let ?tx2 = "?tx1\<lparr>user_ip_history := upsert_ip (ip_of_item it ?ts) (user_ip_history ?tx1)\<rparr>"
  have ip: "has_ip it" using Nil.prems(4) by (simp add: mentions_def has_ip_def)
  have ok: "\<not> fails e (UserUpsert i)" "\<not> fails e (IPUpsert i)"
    using ingestLoop_ok_step [of e i tx it post] Nil.prems(2) ip by auto
  have run: "ingestLoop e i tx (it # post) = ingestLoop e (Suc i) ?tx2 post"
    using ok ip by (simp add: Let_def)
  have "find_ip ?tx2 uid a = Some (ip_of_item it ?ts)"
    using Nil.prems(1,4) by (simp add: find_ip_def find_upsert_ip mentions_def ip_of_item_def)
  from ingestLoop_find_ip [OF this, of e "Suc i" post]
  show ?case using run by (auto simp: ip_of_item_def)
next
  case (Cons p pre)
  let ?ts = "formatRFC3339 (effective_ts e i p)"
  let ?tx1 = "tx\<lparr>plex_users := upsert_user (user_of_item p ?ts) (plex_users tx)\<rparr>"
  let ?tx2 = "?tx1\<lparr>user_ip_history := upsert_ip (ip_of_item p ?ts) (user_ip_history ?tx1)\<rparr>"
  obtain nxt where nxt: "nxt = (if has_ip p then ?tx2 else ?tx1)" by simp
  have ok: "\<not> fails e (UserUpsert i)" "has_ip p \<Longrightarrow> \<not> fails e (IPUpsert i)"
    using ingestLoop_ok_step [of e i tx p "pre @ it # post"] Cons.prems(2) by auto
  have run: "ingestLoop e i tx ((p # pre) @ it # post) = ingestLoop e (Suc i) nxt (pre @ it # post)"
    using ok nxt by (simp add: Let_def)
  have other: "has_ip p \<Longrightarrow> \<not> (uih_user_id (ip_of_item p ?ts) = uid \<and> uih_ip (ip_of_item p ?ts) = a)"
    using Cons.prems(3) by (auto simp: mentions_def has_ip_def ip_of_item_def split: option.splits)
  have absent: "find_ip nxt uid a = None"
    using Cons.prems(1) other nxt by (auto simp: find_ip_def find_upsert_ip)
  have 2: "fst (ingestLoop e (Suc i) nxt (pre @ it # post)) = None"
    using Cons.prems(2) unfolding run .
  have 3: "\<forall>x \<in> set pre. \<not> mentions x uid a"
    using Cons.prems(3) by simp
  from Cons.IH [OF absent 2 3 Cons.prems(4)]
  show ?case unfolding run by simp
qed

lemma ingestItems_ok:
  "fst (ingestItems e db arr) = None \<Longrightarrow>
     fst (ingestLoop e 0 db arr) = None \<and> snd (ingestItems e db arr) = snd (ingestLoop e 0 db arr)"
  by (auto simp: ingestItems_def split: prod.splits option.splits if_splits)

subsection \<open>The watermarks of a history row\<close>

lemma fmt_year_10000: "formatRFC3339 253402300800 = ''10000-01-01T00:00:00Z''"
  by (simp add: fmt_eval)

text \<open>
  Claim C9 (every history row has \<open>first_seen \<le> last_seen\<close>, and a merge only ever
  raises \<open>last_seen\<close>) fails on the code. The merge keeps the greater of the two
  \<open>last_seen\<close> strings, and a year above 9999 is printed with five digits, which
  sorts below every four-digit year. A pair first seen at 253402300800
  (10000-01-01T00:00:00Z) and seen again at 1000 (1970-01-01T00:16:40Z) ends with
  its \<open>first_seen\<close> at the former instant and its \<open>last_seen\<close> at the latter: the merge
  has lowered \<open>last_seen\<close> below \<open>first_seen\<close>.
\<close>

theorem last_seen_lowered_below_first_seen:
  "find_ip (snd (ingestItems (quiet_env 0)
              (snd (ingestItems (quiet_env 0) empty_store
                      [obs 1 ''alice'' (Some ''10.0.0.5'') (Some 253402300800)]))
              [obs 1 ''alice'' (Some ''10.0.0.5'') (Some 1000)]))
      1 ''10.0.0.5''
     = Some \<lparr>uih_user_id = 1, uih_ip = ''10.0.0.5'',
             uih_first_seen = formatRFC3339 253402300800, uih_last_seen = formatRFC3339 1000\<rparr>
   \<and> formatRFC3339 253402300800 = ''10000-01-01T00:00:00Z''
   \<and> formatRFC3339 1000 = ''1970-01-01T00:16:40Z''
   \<and> (1000 :: int) < 253402300800"
  by (simp add: find_ip_def ingest_eval fmt_year_10000 fmt_1000)

subsection \<open>The first sighting of an address\<close>

text \<open>
  Claim C2. The \<open>first_seen\<close> of a (user, address) pair is written when the pair is
  created, with the timestamp of the first item of the batch that carries the pair,
  and no later ingest changes it, whatever timestamps it carries. Scenario A:
  after alice at 10.0.0.5 with date 1000 and then with date 500, the user's
  \<open>last_seen\<close>, the pair's \<open>last_seen\<close> and the pair's \<open>first_seen\<close> are all the
  rendering of 1000.
\<close>

theorem first_seen_set_once:
  "(find_ip db uid a = Some r \<longrightarrow>
      (\<exists>r'. find_ip (snd (ingestItems e db arr)) uid a = Some r'
            \<and> uih_first_seen r' = uih_first_seen r))
   \<and> (find_ip db uid a = None \<and> fst (ingestItems e db (pre @ it # post)) = None
        \<and> (\<forall>x \<in> set pre. \<not> mentions x uid a) \<and> mentions it uid a \<longrightarrow>
      (\<exists>r'. find_ip (snd (ingestItems e db (pre @ it # post))) uid a = Some r'
            \<and> uih_first_seen r' = formatRFC3339 (effective_ts e (length pre) it)))
   \<and> (let db1 = snd (ingestItems (quiet_env 5000) empty_store
                       [obs 1 ''alice'' (Some ''10.0.0.5'') (Some 1000)]);
           db2 = snd (ingestItems (quiet_env 6000) db1
                       [obs 1 ''alice'' (Some ''10.0.0.5'') (Some 500)])
       in map_option pu_last_seen (find_user db2 1) = Some (formatRFC3339 1000)
          \<and> map_option uih_last_seen (find_ip db2 1 ''10.0.0.5'') = Some (formatRFC3339 1000)
          \<and> map_option uih_first_seen (find_ip db2 1 ''10.0.0.5'') = Some (formatRFC3339 1000))"
proof (intro conjI impI)
  assume "find_ip db uid a = Some r"
  from ingestItems_find_ip [OF this, of e arr]
  show "\<exists>r'. find_ip (snd (ingestItems e db arr)) uid a = Some r'
            \<and> uih_first_seen r' = uih_first_seen r"
    by blast
next
  assume h: "find_ip db uid a = None \<and> fst (ingestItems e db (pre @ it # post)) = None
        \<and> (\<forall>x \<in> set pre. \<not> mentions x uid a) \<and> mentions it uid a"
  then have "fst (ingestLoop e 0 db (pre @ it # post)) = None"
    "snd (ingestItems e db (pre @ it # post)) = snd (ingestLoop e 0 db (pre @ it # post))"
    using ingestItems_ok by blast+
  then show "\<exists>r'. find_ip (snd (ingestItems e db (pre @ it # post))) uid a = Some r'
            \<and> uih_first_seen r' = formatRFC3339 (effective_ts e (length pre) it)"
    using ingestLoop_creates [of db uid a e 0 pre it post] h by simp
next
  show "let db1 = snd (ingestItems (quiet_env 5000) empty_store
                       [obs 1 ''alice'' (Some ''10.0.0.5'') (Some 1000)]);
           db2 = snd (ingestItems (quiet_env 6000) db1
                       [obs 1 ''alice'' (Some ''10.0.0.5'') (Some 500)])
       in map_option pu_last_seen (find_user db2 1) = Some (formatRFC3339 1000)
          \<and> map_option uih_last_seen (find_ip db2 1 ''10.0.0.5'') = Some (formatRFC3339 1000)
          \<and> map_option uih_first_seen (find_ip db2 1 ''10.0.0.5'') = Some (formatRFC3339 1000)"
    by (simp add: find_ip_def find_user_def ingest_eval fmt_500 fmt_1000)
qed

text \<open>
  An existing pair keeps its \<open>first_seen\<close> under an earlier-dated ingest, and a new
  pair takes the timestamp of the first item that carries it, not the smallest one.
\<close>

theorem first_seen_set_once_witness:
  "find_ip seen_once 1 ''10.0.0.5'' = Some (hd (user_ip_history seen_once))
   \<and> map_option uih_first_seen
        (find_ip (snd (ingestItems (quiet_env 0) seen_once [obs 1 ''alice'' (Some ''10.0.0.5'') (Some 500)]))
           1 ''10.0.0.5'') = Some ''1970-01-01T00:16:40Z''
   \<and> find_ip seen_once 1 ''10.0.0.9'' = None
   \<and> mentions (obs 1 ''alice'' (Some ''10.0.0.9'') (Some 700)) 1 ''10.0.0.9''
   \<and> map_option uih_first_seen
        (find_ip (snd (ingestItems (quiet_env 0) seen_once
            [obs 2 ''bob'' None None, obs 1 ''alice'' (Some ''10.0.0.9'') (Some 700),
             obs 1 ''alice'' (Some ''10.0.0.9'') (Some 300)]))
           1 ''10.0.0.9'') = Some (formatRFC3339 700)"
proof -
  let ?pre = "[obs 2 ''bob'' None None]"
  let ?it = "obs 1 ''alice'' (Some ''10.0.0.9'') (Some 700)"
  let ?post = "[obs 1 ''alice'' (Some ''10.0.0.9'') (Some 300)]"
  have f: "find_ip seen_once 1 ''10.0.0.5'' = Some (hd (user_ip_history seen_once))"
    by (simp add: find_ip_def seen_once_def)
  have n: "find_ip seen_once 1 ''10.0.0.9'' = None"
    by (simp add: find_ip_def seen_once_def)
  have m: "mentions ?it 1 ''10.0.0.9''" "\<forall>x \<in> set ?pre. \<not> mentions x 1 ''10.0.0.9''"
    by (simp_all add: mentions_def obs_def)
  have ok: "fst (ingestItems (quiet_env 0) seen_once (?pre @ ?it # ?post)) = None"
    by (simp add: seen_once_def ingest_eval)
  have fs: "uih_first_seen (hd (user_ip_history seen_once)) = ''1970-01-01T00:16:40Z''"
    by (simp add: seen_once_def)
  note inst = first_seen_set_once [of seen_once 1 _ _ "quiet_env 0"]
  from inst [of "''10.0.0.5''" "hd (user_ip_history seen_once)"
      "[obs 1 ''alice'' (Some ''10.0.0.5'') (Some 500)]"] f fs
  have a: "map_option uih_first_seen
        (find_ip (snd (ingestItems (quiet_env 0) seen_once [obs 1 ''alice'' (Some ''10.0.0.5'') (Some 500)]))
           1 ''10.0.0.5'') = Some ''1970-01-01T00:16:40Z''"
    by auto
  have eff: "effective_ts (quiet_env 0) (length ?pre) ?it = 700"
    by (simp add: effective_ts_def obs_def)
  from inst [of "''10.0.0.9''" _ _ ?pre ?it ?post] n m ok eff
  have b: "map_option uih_first_seen
        (find_ip (snd (ingestItems (quiet_env 0) seen_once (?pre @ ?it # ?post))) 1 ''10.0.0.9'')
       = Some (formatRFC3339 700)"
    by auto
  show ?thesis using f a n m(1) b by simp
qed

subsection \<open>The response of the ingest handler\<close>

text \<open>
  Claim C6, as the code has it. For a request that passes the method and token
  checks: a body that decodes to an empty batch is answered with the count 0 and the
  store is untouched; a body that decodes to a non-empty batch is answered, when the
  transaction succeeds, with the length of the batch; a body that decodes neither as
  an array nor as an object is answered with status 400 and the store is untouched.
  Whatever the request, the count 0 is only ever returned with the store unchanged.
\<close>

theorem handleIngest_count:
  "(admitted want r \<and> (req_body r = ArrayBody arr \<or> req_body r = ObjectBody arr) \<longrightarrow>
      (arr = [] \<longrightarrow> handleIngest want e db r = (Ingested 0, db))
      \<and> (arr \<noteq> [] \<and> fst (ingestItems e db arr) = None \<longrightarrow>
           handleIngest want e db r = (Ingested (length arr), snd (ingestItems e db arr))))
   \<and> (admitted want r \<and> req_body r = BadJSON \<longrightarrow>
        handleIngest want e db r = (HttpError 400 ''bad json'', db))
   \<and> (fst (handleIngest want e db r) = Ingested 0 \<longrightarrow> snd (handleIngest want e db r) = db)"
proof (intro conjI impI)
  assume a: "admitted want r \<and> (req_body r = ArrayBody arr \<or> req_body r = ObjectBody arr)"
  then have h: "handleIngest want e db r = respond_ingest e db arr"
    by (auto simp: handleIngest_def admitted_def)
  show "handleIngest want e db r = (Ingested 0, db)" if "arr = []"
    using that h by (simp add: respond_ingest_def)
  show "handleIngest want e db r = (Ingested (length arr), snd (ingestItems e db arr))"
    if "arr \<noteq> [] \<and> fst (ingestItems e db arr) = None"
    using that h by (auto simp: respond_ingest_def split: prod.splits option.splits)
next
  assume "admitted want r \<and> req_body r = BadJSON"
  then show "handleIngest want e db r = (HttpError 400 ''bad json'', db)"
    by (auto simp: handleIngest_def admitted_def)
next
  assume z: "fst (handleIngest want e db r) = Ingested 0"
  have "snd (respond_ingest e db xs) = db" if "fst (respond_ingest e db xs) = Ingested 0" for xs
    using that by (auto simp: respond_ingest_def split: prod.splits option.splits if_splits)
  then show "snd (handleIngest want e db r) = db"
    using z by (auto simp: handleIngest_def split: if_splits ingest_body.splits)
qed

text \<open>
  An empty array, an object without data, a batch of one observation and a body that
  is no JSON array or object, each posted to the empty store.
\<close>

theorem handleIngest_count_witness:
  "admitted [] (post_request (ArrayBody []))
   \<and> handleIngest [] (quiet_env 0) empty_store (post_request (ArrayBody [])) = (Ingested 0, empty_store)
   \<and> handleIngest [] (quiet_env 0) empty_store (post_request (ObjectBody [])) = (Ingested 0, empty_store)
   \<and> fst (handleIngest [] (quiet_env 0) empty_store
            (post_request (ArrayBody [obs 1 ''alice'' (Some ''10.0.0.5'') (Some 1000)]))) = Ingested 1
   \<and> handleIngest [] (quiet_env 0) empty_store (post_request BadJSON)
      = (HttpError 400 ''bad json'', empty_store)"
proof -
  let ?arr = "[obs 1 ''alice'' (Some ''10.0.0.5'') (Some 1000)]"
  have adm: "admitted [] (post_request b)" for b
    by (simp add: admitted_def post_request_def)
  have body: "req_body (post_request b) = b" for b
    by (simp add: post_request_def)
  have ok: "?arr \<noteq> [] \<and> fst (ingestItems (quiet_env 0) empty_store ?arr) = None"
    by (simp add: ingest_eval)
  note inst = handleIngest_count [of "[]" _ _ "quiet_env 0" empty_store]
  have 1: "handleIngest [] (quiet_env 0) empty_store (post_request (ArrayBody [])) = (Ingested 0, empty_store)"
    using inst [of "post_request (ArrayBody [])" "[]"] adm body by blast
  have 2: "handleIngest [] (quiet_env 0) empty_store (post_request (ObjectBody [])) = (Ingested 0, empty_store)"
    using inst [of "post_request (ObjectBody [])" "[]"] adm body by blast
  have 3: "fst (handleIngest [] (quiet_env 0) empty_store (post_request (ArrayBody ?arr))) = Ingested 1"
    using inst [of "post_request (ArrayBody ?arr)" ?arr] adm body ok by simp
  have 4: "handleIngest [] (quiet_env 0) empty_store (post_request BadJSON)
      = (HttpError 400 ''bad json'', empty_store)"
    using inst [of "post_request BadJSON" "[]"] adm body by blast
  show ?thesis by (intro conjI adm 1 2 3 4)
qed

text \<open>
  The claim as stated fails on a body that is neither an array nor an object: the
  handler answers with the error status 400, not with the count 0.
\<close>

theorem handleIngest_unparseable_counterexample:
  "fst (handleIngest [] (quiet_env 0) empty_store (post_request BadJSON)) = HttpError 400 ''bad json''
   \<and> fst (handleIngest [] (quiet_env 0) empty_store (post_request BadJSON)) \<noteq> Ingested 0"
  by (simp add: handleIngest_def post_request_def)

subsection \<open>Lemmas on the ordering of query results\<close>

lemma mset_insert_desc: "mset (insert_desc x ys) = add_mset x (mset ys)"
  by (induction ys) auto

lemma mset_order_by_last_seen_desc: "mset (order_by_last_seen_desc rs) = mset rs"
  by (induction rs) (auto simp: order_by_last_seen_desc_def mset_insert_desc)





lemma order_by_last_seen_desc_Nil: "order_by_last_seen_desc rs = [] \<longleftrightarrow> rs = []"
  using mset_order_by_last_seen_desc [of rs] by (metis mset_zero_iff)

lemma find_user_None: "find_user st uid = None \<longleftrightarrow> filter (\<lambda>pu. pu_id pu = uid) (plex_users st) = []"
  by (auto simp: find_user_def find_None_iff filter_empty_conv)

subsection \<open>The history of a user\<close>

text \<open>
  For a path that carries a user id, and a store that answers the history query, the
  handler renders exactly the (ip, first_seen, last_seen) rows of that user; for a
  user with no stored rows the list is empty and the page is rendered all the same,
  and when the registry has no row for the id the label is \<^verbatim>\<open>User <id>\<close>.
\<close>

lemma history_rows_and_label:
  "ParseInt (TrimPrefix path ''/partial/user/'') = Some uid \<and> \<not> fails e HistoryQuery \<longrightarrow>
     (\<exists>page. handleUserIPs e st path = Rendered page
        \<and> mset (IPs page)
            = mset (map (\<lambda>r. \<lparr>IP = uih_ip r, FirstSeen = uih_first_seen r, LastSeen = uih_last_seen r\<rparr>)
                        (filter (\<lambda>r. uih_user_id r = uid) (user_ip_history st)))
        \<and> (filter (\<lambda>r. uih_user_id r = uid) (user_ip_history st) = [] \<longrightarrow> IPs page = [])
        \<and> (find_user st uid = None \<longrightarrow> Username page = ''User '' @ appendInt uid 0))"
proof
  assume a: "ParseInt (TrimPrefix path ''/partial/user/'') = Some uid \<and> \<not> fails e HistoryQuery"
  let ?name = "username_query e st uid"
  let ?page = "\<lparr>Username = (if ?name = [] then placeholder uid else ?name), IPs = history_query st uid\<rparr>"
  have r: "handleUserIPs e st path = Rendered ?page"
    using a by (simp add: handleUserIPs_def Let_def)
  have m: "mset (history_query st uid)
            = mset (map (\<lambda>r. \<lparr>IP = uih_ip r, FirstSeen = uih_first_seen r, LastSeen = uih_last_seen r\<rparr>)
                        (filter (\<lambda>r. uih_user_id r = uid) (user_ip_history st)))"
    using mset_order_by_last_seen_desc [of "history_of st uid"]
    by (simp add: history_query_def history_of_def)
  have n: "history_query st uid = []" if "filter (\<lambda>r. uih_user_id r = uid) (user_ip_history st) = []"
    using that by (simp add: history_query_def history_of_def order_by_last_seen_desc_def)
  have u: "?name = []" if "find_user st uid = None"
    using that by (simp add: username_query_def find_user_None)
  show "\<exists>page. handleUserIPs e st path = Rendered page
        \<and> mset (IPs page)
            = mset (map (\<lambda>r. \<lparr>IP = uih_ip r, FirstSeen = uih_first_seen r, LastSeen = uih_last_seen r\<rparr>)
                        (filter (\<lambda>r. uih_user_id r = uid) (user_ip_history st)))
        \<and> (filter (\<lambda>r. uih_user_id r = uid) (user_ip_history st) = [] \<longrightarrow> IPs page = [])
        \<and> (find_user st uid = None \<longrightarrow> Username page = ''User '' @ appendInt uid 0)"
    using r m n u by (intro exI [of _ ?page]) (simp add: placeholder_def)
qed

text \<open>
  Claim C8 (the rows are ordered by \<open>last_seen\<close> descending) fails on the code, by the
  defect of claim C9: the query orders the \<open>last_seen\<close> strings, and a year above 9999
  sorts below every four-digit year. With one address of user 1 seen at 253402300800
  (10000-01-01T00:00:00Z) and another seen at 1000 (1970-01-01T00:16:40Z), the page
  lists the address of 1970 first and the address of the year 10000 last.
\<close>

theorem history_not_descending:
  "handleUserIPs (quiet_env 0)
      (snd (ingestItems (quiet_env 0) empty_store
              [obs 1 ''alice'' (Some ''10.0.0.1'') (Some 253402300800),
               obs 1 ''alice'' (Some ''10.0.0.2'') (Some 1000)]))
      ''/partial/user/1''
     = Rendered \<lparr>Username = ''alice'',
                 IPs = [\<lparr>IP = ''10.0.0.2'', FirstSeen = formatRFC3339 1000,
                          LastSeen = formatRFC3339 1000\<rparr>,
                        \<lparr>IP = ''10.0.0.1'', FirstSeen = formatRFC3339 253402300800,
                          LastSeen = formatRFC3339 253402300800\<rparr>]\<rparr>
   \<and> formatRFC3339 253402300800 = ''10000-01-01T00:00:00Z''
   \<and> formatRFC3339 1000 = ''1970-01-01T00:16:40Z''
   \<and> (1000 :: int) < 253402300800"
  by (simp add: handleUserIPs_def ParseInt_def TrimPrefix_def digit_val_def
      username_query_def history_query_def history_of_def order_by_last_seen_desc_def
      ingest_eval fmt_year_10000 fmt_1000)

lemma mset_insert_asc: "mset (insert_asc x ys) = add_mset x (mset ys)"
  by (induction ys) auto

lemma mset_order_by_username_asc: "mset (order_by_username_asc rs) = mset rs"
  by (induction rs) (auto simp: order_by_username_asc_def mset_insert_asc)

lemma set_order_by_username_asc: "set (order_by_username_asc rs) = set rs"
  using mset_order_by_username_asc [of rs] by (metis set_mset_mset)




lemma set_summary_join: "set (summary_join st) = summary_row_of st ` set (plex_users st)"
proof (intro equalityI subsetI)
  fix r assume "r \<in> set (summary_join st)"
  then show "r \<in> summary_row_of st ` set (plex_users st)"
    apply (clarsimp simp: summary_join_def users_last_ip_def summary_row_of_def image_iff)
    subgoal for p1 pu by (rule bexI [of _ pu]) simp_all
    done
next
  fix r assume "r \<in> summary_row_of st ` set (plex_users st)"
  then obtain pu where p: "pu \<in> set (plex_users st)" and r: "r = summary_row_of st pu"
    by auto
  show "r \<in> set (summary_join st)"
    using p r
    apply (clarsimp simp: summary_join_def users_last_ip_def summary_row_of_def image_iff)
    apply (rule bexI [of _ pu])
     apply (auto intro!: exI [of _ pu])
    done
qed

lemma latest_row_None: "latest_row st uid = None \<longleftrightarrow> history_of st uid = []"
  using order_by_last_seen_desc_Nil [of "history_of st uid"]
  by (auto simp: latest_row_def split: list.splits)

lemma filter_upsert_ip_other:
  "uih_user_id x \<noteq> uid \<Longrightarrow>
   filter (\<lambda>r. uih_user_id r = uid) (upsert_ip x rs) = filter (\<lambda>r. uih_user_id r = uid) rs"
  by (induction rs) auto

lemma ids_upsert_user: "pu_id ` set (upsert_user x rs) = insert (pu_id x) (pu_id ` set rs)"
  by (induction rs) (auto simp: do_update_user_def)

lemma ingestLoop_no_address:
  assumes "history_of tx uid = []"
    and "\<forall>it \<in> set arr. UserID it = uid \<longrightarrow> \<not> has_ip it"
  shows "history_of (snd (ingestLoop e i tx arr)) uid = []"
  using assms
proof (induction arr arbitrary: i tx)
  case Nil
  then show ?case by simp
next
  case (Cons it rest)
  let ?ts = "formatRFC3339 (effective_ts e i it)"
  let ?tx1 = "tx\<lparr>plex_users := upsert_user (user_of_item it ?ts) (plex_users tx)\<rparr>"
  let ?tx2 = "?tx1\<lparr>user_ip_history := upsert_ip (ip_of_item it ?ts) (user_ip_history ?tx1)\<rparr>"
  have 1: "history_of ?tx1 uid = []"
    using Cons.prems(1) by (simp add: history_of_def)
  have 2: "history_of ?tx2 uid = []" if "has_ip it"
    using Cons.prems that filter_upsert_ip_other [of "ip_of_item it ?ts" uid "user_ip_history tx"]
    by (auto simp: history_of_def ip_of_item_def)
  have r: "\<forall>it \<in> set rest. UserID it = uid \<longrightarrow> \<not> has_ip it"
    using Cons.prems(2) by simp
  show ?case
    using Cons.prems(1) 1 2 Cons.IH [OF 1 r, of "Suc i"] Cons.IH [OF 2 r, of "Suc i"]
    by (simp add: Let_def)
qed

lemma ingestLoop_registers:
  assumes "fst (ingestLoop e i tx arr) = None"
  shows "pu_id ` set (plex_users (snd (ingestLoop e i tx arr)))
           = pu_id ` set (plex_users tx) \<union> UserID ` set arr"
  using assms
proof (induction arr arbitrary: i tx)
  case Nil
  then show ?case by simp
next
  case (Cons it rest)
  let ?ts = "formatRFC3339 (effective_ts e i it)"
  let ?tx1 = "tx\<lparr>plex_users := upsert_user (user_of_item it ?ts) (plex_users tx)\<rparr>"
  let ?tx2 = "?tx1\<lparr>user_ip_history := upsert_ip (ip_of_item it ?ts) (user_ip_history ?tx1)\<rparr>"
  obtain nxt where nxt: "nxt = (if has_ip it then ?tx2 else ?tx1)" by simp
  have ok: "\<not> fails e (UserUpsert i)" "has_ip it \<Longrightarrow> \<not> fails e (IPUpsert i)"
    using ingestLoop_ok_step [of e i tx it rest] Cons.prems by auto
  have run: "ingestLoop e i tx (it # rest) = ingestLoop e (Suc i) nxt rest"
    using ok nxt by (simp add: Let_def)
  have ids: "pu_id ` set (plex_users nxt) = insert (UserID it) (pu_id ` set (plex_users tx))"
    using nxt ids_upsert_user [of "user_of_item it ?ts" "plex_users tx"]
    by (simp add: user_of_item_def)
  have "fst (ingestLoop e (Suc i) nxt rest) = None"
    using Cons.prems unfolding run .
  from Cons.IH [OF this] show ?case
    unfolding run using ids by auto
qed

subsection \<open>Users without an address in the summary\<close>

text \<open>
  Claim C10. A user whose observations all came without an address (null or empty)
  is registered and has no history row, and the unfiltered summary lists the user
  with a null \<open>last_ip\<close> and a null \<open>updated_at\<close>: the rows of the listing are the
  rows of the registry, one summary row for each, whether or not the user has a
  history.
\<close>

theorem summary_total_over_users:
  "history_of db uid = [] \<and> (\<forall>it \<in> set arr. UserID it = uid \<longrightarrow> \<not> has_ip it)
   \<and> (\<exists>it \<in> set arr. UserID it = uid) \<and> fst (ingestItems e db arr) = None
   \<and> TrimSpace raw = [] \<and> \<not> fails e' SummaryQuery \<longrightarrow>
     (\<exists>rows. handleSummary e' (snd (ingestItems e db arr)) raw = Rendered rows
        \<and> (\<exists>r \<in> set rows. row_UserID r = uid \<and> row_LastIP r = None \<and> row_UpdatedAt r = None)
        \<and> (\<forall>r \<in> set rows. row_UserID r = uid \<longrightarrow> row_LastIP r = None \<and> row_UpdatedAt r = None)
        \<and> set rows = summary_row_of (snd (ingestItems e db arr))
                        ` set (plex_users (snd (ingestItems e db arr))))"
proof
  assume a: "history_of db uid = [] \<and> (\<forall>it \<in> set arr. UserID it = uid \<longrightarrow> \<not> has_ip it)
   \<and> (\<exists>it \<in> set arr. UserID it = uid) \<and> fst (ingestItems e db arr) = None
   \<and> TrimSpace raw = [] \<and> \<not> fails e' SummaryQuery"
  let ?db = "snd (ingestItems e db arr)"
  have ok: "fst (ingestLoop e 0 db arr) = None" "?db = snd (ingestLoop e 0 db arr)"
    using a ingestItems_ok by blast+
  have h: "history_of ?db uid = []"
    using a ingestLoop_no_address [of db uid arr e 0] ok(2) by simp
  have "uid \<in> pu_id ` set (plex_users ?db)"
    using a ingestLoop_registers [OF ok(1)] ok(2) by auto
  then obtain pu where pu: "pu \<in> set (plex_users ?db)" "pu_id pu = uid" by auto
  have rows: "handleSummary e' ?db raw = Rendered (summary_query ?db [])"
    using a by (simp add: handleSummary_def)
  have s: "set (summary_query ?db []) = summary_row_of ?db ` set (plex_users ?db)"
    by (simp add: summary_query_def set_order_by_username_asc set_summary_join)
  have 1: "\<exists>r \<in> set (summary_query ?db []). row_UserID r = uid \<and> row_LastIP r = None \<and> row_UpdatedAt r = None"
    unfolding s using pu h latest_row_None [of ?db uid]
    by (auto simp: summary_row_of_def)
  have 2: "\<forall>r \<in> set (summary_query ?db []). row_UserID r = uid \<longrightarrow> row_LastIP r = None \<and> row_UpdatedAt r = None"
    unfolding s using h latest_row_None [of ?db uid]
    by (auto simp: summary_row_of_def)
  show "\<exists>rows. handleSummary e' ?db raw = Rendered rows
        \<and> (\<exists>r \<in> set rows. row_UserID r = uid \<and> row_LastIP r = None \<and> row_UpdatedAt r = None)
        \<and> (\<forall>r \<in> set rows. row_UserID r = uid \<longrightarrow> row_LastIP r = None \<and> row_UpdatedAt r = None)
        \<and> set rows = summary_row_of ?db ` set (plex_users ?db)"
    using rows s 1 2 by (intro exI [of _ "summary_query ?db []"] conjI)
qed

text \<open>
  User 7 is ingested into the empty store without an address; the summary lists the
  user with both columns null.
\<close>

theorem summary_total_over_users_witness:
  "history_of empty_store 7 = []
   \<and> map UserID no_address_batch = [7, 7] \<and> map has_ip no_address_batch = [False, False]
   \<and> fst (ingestItems (quiet_env 0) empty_store no_address_batch) = None
   \<and> TrimSpace '' '' = []
   \<and> (\<exists>rows. handleSummary (quiet_env 0) (snd (ingestItems (quiet_env 0) empty_store no_address_batch)) '' ''
                = Rendered rows
          \<and> (\<exists>r \<in> set rows. row_UserID r = 7 \<and> row_LastIP r = None \<and> row_UpdatedAt r = None))
   \<and> handleSummary (quiet_env 0) (snd (ingestItems (quiet_env 0) empty_store no_address_batch)) []
      = Rendered [\<lparr>row_UserID = 7, row_Username = ''carol'', row_FriendlyName = None,
                    row_LastIP = None, row_UpdatedAt = None\<rparr>]"
proof -
  have 1: "history_of empty_store 7 = []"
    by (simp add: history_of_def empty_store_def)
  have 2: "\<forall>it \<in> set no_address_batch. UserID it = 7 \<longrightarrow> \<not> has_ip it"
    by (simp add: no_address_batch_def obs_def has_ip_def)
  have 3: "\<exists>it \<in> set no_address_batch. UserID it = 7"
    by (simp add: no_address_batch_def obs_def)
  have 9: "map UserID no_address_batch = [7, 7] \<and> map has_ip no_address_batch = [False, False]"
    by (simp add: no_address_batch_def obs_def has_ip_def)
  have 4: "fst (ingestItems (quiet_env 0) empty_store no_address_batch) = None"
    by (simp add: no_address_batch_def ingest_eval)
  have 5: "TrimSpace '' '' = []"
    by (simp add: TrimSpace_def isSpace_def)
  have 6: "\<not> fails (quiet_env 0) SummaryQuery"
    by (simp add: quiet_env_def)
  have "\<exists>rows. handleSummary (quiet_env 0) (snd (ingestItems (quiet_env 0) empty_store no_address_batch)) '' ''
                = Rendered rows
        \<and> (\<exists>r \<in> set rows. row_UserID r = 7 \<and> row_LastIP r = None \<and> row_UpdatedAt r = None)
        \<and> (\<forall>r \<in> set rows. row_UserID r = 7 \<longrightarrow> row_LastIP r = None \<and> row_UpdatedAt r = None)
        \<and> set rows = summary_row_of (snd (ingestItems (quiet_env 0) empty_store no_address_batch))
                        ` set (plex_users (snd (ingestItems (quiet_env 0) empty_store no_address_batch)))"
    by (rule mp [OF summary_total_over_users [of empty_store 7 no_address_batch "quiet_env 0" "'' ''" "quiet_env 0"]])
       (intro conjI 1 2 3 4 5 6)
  then obtain rows where rows:
    "handleSummary (quiet_env 0) (snd (ingestItems (quiet_env 0) empty_store no_address_batch)) '' ''
                = Rendered rows
        \<and> (\<exists>r \<in> set rows. row_UserID r = 7 \<and> row_LastIP r = None \<and> row_UpdatedAt r = None)
        \<and> (\<forall>r \<in> set rows. row_UserID r = 7 \<longrightarrow> row_LastIP r = None \<and> row_UpdatedAt r = None)
        \<and> set rows = summary_row_of (snd (ingestItems (quiet_env 0) empty_store no_address_batch))
                        ` set (plex_users (snd (ingestItems (quiet_env 0) empty_store no_address_batch)))" ..
  have 7: "\<exists>rows. handleSummary (quiet_env 0) (snd (ingestItems (quiet_env 0) empty_store no_address_batch)) '' ''
                = Rendered rows
          \<and> (\<exists>r \<in> set rows. row_UserID r = 7 \<and> row_LastIP r = None \<and> row_UpdatedAt r = None)"
    by (rule exI [of _ rows]) (intro conjI rows [THEN conjunct1] rows [THEN conjunct2, THEN conjunct1])
  have 8: "handleSummary (quiet_env 0) (snd (ingestItems (quiet_env 0) empty_store no_address_batch)) []
      = Rendered [\<lparr>row_UserID = 7, row_Username = ''carol'', row_FriendlyName = None,
                    row_LastIP = None, row_UpdatedAt = None\<rparr>]"
    by (simp add: handleSummary_def TrimSpace_def summary_query_def summary_join_def users_last_ip_def
        latest_row_def history_of_def order_by_last_seen_desc_def order_by_username_asc_def
        no_address_batch_def ingest_eval)
  show ?thesis by (intro conjI 1 9 [THEN conjunct1] 9 [THEN conjunct2] 4 5 7 8)
qed

subsection \<open>The last-IP projection\<close>






subsection \<open>The summary listing and its filter\<close>











subsection \<open>The loop as a fold, and the row of a key after a batch\<close>

lemma stamped_Nil [simp]: "stamped e i [] = []"
  by (simp add: stamped_def)

lemma stamped_Cons:
  "stamped e i (it # rest) = (it, formatRFC3339 (effective_ts e i it)) # stamped e (Suc i) rest"
proof -
  have "[i ..< i + length (it # rest)] = i # [Suc i ..< i + length (it # rest)]"
    by (rule upt_conv_Cons) simp
  moreover have "i + length (it # rest) = Suc i + length rest"
    by simp
  ultimately have "[i ..< i + length (it # rest)] = i # [Suc i ..< Suc i + length rest]"
    by (simp only:)
  then show ?thesis
    by (simp only: stamped_def zip_Cons_Cons list.map prod.case)
qed

lemma run_stamped_Nil [simp]: "run_stamped [] tx = tx"
  by (simp add: run_stamped_def)

lemma run_stamped_Cons [simp]: "run_stamped (x # xs) tx = run_stamped xs (apply_stamped x tx)"
  by (simp add: run_stamped_def)

lemma run_stamped_append: "run_stamped (xs @ ys) tx = run_stamped ys (run_stamped xs tx)"
  by (simp add: run_stamped_def)

lemma ingestLoop_run:
  "fst (ingestLoop e i tx arr) = None \<Longrightarrow>
   snd (ingestLoop e i tx arr) = run_stamped (stamped e i arr) tx"
proof (induction arr arbitrary: i tx)
  case Nil
  then show ?case by simp
next
  case (Cons it rest)
  let ?x = "(it, formatRFC3339 (effective_ts e i it))"
  have ok: "\<not> fails e (UserUpsert i)" "has_ip it \<Longrightarrow> \<not> fails e (IPUpsert i)"
    using ingestLoop_ok_step [of e i tx it rest] Cons.prems by auto
  have run: "ingestLoop e i tx (it # rest) = ingestLoop e (Suc i) (apply_stamped ?x tx) rest"
    using ok by (simp add: Let_def apply_stamped_def)
  have "fst (ingestLoop e (Suc i) (apply_stamped ?x tx) rest) = None"
    using Cons.prems unfolding run .
  from Cons.IH [OF this] show ?case
    unfolding run by (simp add: stamped_Cons)
qed

lemma reliable_loop: "reliable e \<Longrightarrow> fst (ingestLoop e i tx arr) = None"
  by (induction arr arbitrary: i tx) (simp_all add: reliable_def Let_def)

lemma reliable_ingest:
  "reliable e \<Longrightarrow> ingestItems e db arr = (None, run_stamped (stamped e 0 arr) db)"
  using reliable_loop [of e 0 db arr] ingestLoop_run [of e 0 db arr]
  by (auto simp: ingestItems_def reliable_def split: prod.splits option.splits)

lemma stamped_dated:
  "\<forall>it \<in> set arr. dated it \<Longrightarrow>
   stamped e i arr = map (\<lambda>it. (it, formatRFC3339 (the (Date it)))) arr"
proof (induction arr arbitrary: i)
  case Nil
  then show ?case by simp
next
  case (Cons it rest)
  have "effective_ts e i it = the (Date it)"
    using Cons.prems by (auto simp: dated_def effective_ts_def split: option.splits)
  then show ?case using Cons by (simp add: stamped_Cons)
qed

lemma do_update_user_fields [simp]:
  "pu_id (do_update_user x r) = pu_id r"
  "pu_username (do_update_user x r) = pu_username x"
  "pu_friendly_name (do_update_user x r) = pu_friendly_name x"
  "pu_user_thumb (do_update_user x r) = pu_user_thumb x"
  "pu_last_seen (do_update_user x r) = max (pu_last_seen r) (pu_last_seen x)"
  by (auto simp: do_update_user_def max_def)

lemma find_upsert_user:
  "find (\<lambda>r. pu_id r = k) (upsert_user x rs) =
     (if pu_id x = k then Some (merge_user x (find (\<lambda>r. pu_id r = k) rs))
      else find (\<lambda>r. pu_id r = k) rs)"
  by (induction rs) auto

lemma find_upsert_ip_merge:
  "find (\<lambda>r. uih_user_id r = uid \<and> uih_ip r = a) (upsert_ip x rs) =
     (if uih_user_id x = uid \<and> uih_ip x = a
      then Some (merge_ip x (find (\<lambda>r. uih_user_id r = uid \<and> uih_ip r = a) rs))
      else find (\<lambda>r. uih_user_id r = uid \<and> uih_ip r = a) rs)"
  by (induction rs) auto

lemma find_user_apply:
  "find_user (apply_stamped x tx) k =
     (if UserID (fst x) = k then Some (merge_user (user_of_item (fst x) (snd x)) (find_user tx k))
      else find_user tx k)"
  by (simp add: apply_stamped_def find_user_def find_upsert_user Let_def user_of_item_def)

lemma find_ip_apply:
  "find_ip (apply_stamped x tx) uid a =
     (if mentions (fst x) uid a then Some (merge_ip (ip_of_item (fst x) (snd x)) (find_ip tx uid a))
      else find_ip tx uid a)"
  by (auto simp: apply_stamped_def find_ip_def find_upsert_ip_merge Let_def ip_of_item_def
      mentions_def has_ip_def split: option.splits)

lemma find_user_run:
  "find_user (run_stamped xs tx) k
     = fold_user (filter (\<lambda>x. UserID (fst x) = k) xs) (find_user tx k)"
  by (induction xs arbitrary: tx) (simp_all add: fold_user_def find_user_apply)

lemma find_ip_run:
  "find_ip (run_stamped xs tx) uid a
     = fold_ip (filter (\<lambda>x. mentions (fst x) uid a) xs) (find_ip tx uid a)"
  by (induction xs arbitrary: tx) (simp_all add: fold_ip_def find_ip_apply)

subsection \<open>The closed form of a row after a batch\<close>

lemma fold_user_snoc:
  "fold_user (ys @ [y]) row = Some (merge_user (user_of_item (fst y) (snd y)) (fold_user ys row))"
  by (simp add: fold_user_def)

lemma fold_ip_snoc:
  "fold_ip (ys @ [y]) row = Some (merge_ip (ip_of_item (fst y) (snd y)) (fold_ip ys row))"
  by (simp add: fold_ip_def)

lemma fold_user_Some:
  "ys \<noteq> [] \<Longrightarrow>
   \<exists>u. fold_user ys row = Some u
     \<and> pu_id u = (case row of None \<Rightarrow> UserID (fst (hd ys)) | Some r \<Rightarrow> pu_id r)
     \<and> pu_username u = User (fst (last ys))
     \<and> pu_friendly_name u = FriendlyName (fst (last ys))
     \<and> pu_user_thumb u = UserThumb (fst (last ys))
     \<and> pu_last_seen u = Max ((case row of None \<Rightarrow> {} | Some r \<Rightarrow> {pu_last_seen r}) \<union> set (map snd ys))"
proof (induction ys rule: rev_nonempty_induct)
  case (single y)
  show ?case
    by (cases row) (simp_all add: fold_user_def user_of_item_def max.commute)
next
  case (snoc y ys)
  let ?S = "(case row of None \<Rightarrow> {} | Some r \<Rightarrow> {pu_last_seen r}) \<union> set (map snd ys)"
  obtain u where u: "fold_user ys row = Some u"
    "pu_id u = (case row of None \<Rightarrow> UserID (fst (hd ys)) | Some r \<Rightarrow> pu_id r)"
    "pu_last_seen u = Max ?S"
    using snoc.IH by blast
  have fin: "finite ?S" "?S \<noteq> {}"
    using snoc.hyps by (auto split: option.splits)
  have "Max (insert (snd y) ?S) = max (snd y) (Max ?S)"
    using fin by (rule Max_insert)
  then have m: "max (Max ?S) (snd y)
      = Max ((case row of None \<Rightarrow> {} | Some r \<Rightarrow> {pu_last_seen r}) \<union> set (map snd (ys @ [y])))"
    by (simp add: max.commute Un_commute)
  have h: "hd (ys @ [y]) = hd ys"
    using snoc.hyps by simp
  show ?case
    unfolding fold_user_snoc u(1) h using u(2,3) m
    by (simp add: user_of_item_def)
qed

lemma fold_ip_Some:
  "ys \<noteq> [] \<Longrightarrow>
   \<exists>u. fold_ip ys row = Some u
     \<and> uih_user_id u = (case row of None \<Rightarrow> UserID (fst (hd ys)) | Some r \<Rightarrow> uih_user_id r)
     \<and> uih_ip u = (case row of None \<Rightarrow> the (IPAddress (fst (hd ys))) | Some r \<Rightarrow> uih_ip r)
     \<and> uih_first_seen u = (case row of None \<Rightarrow> snd (hd ys) | Some r \<Rightarrow> uih_first_seen r)
     \<and> uih_last_seen u = Max ((case row of None \<Rightarrow> {} | Some r \<Rightarrow> {uih_last_seen r}) \<union> set (map snd ys))"
proof (induction ys rule: rev_nonempty_induct)
  case (single y)
  show ?case
    by (cases row) (simp_all add: fold_ip_def ip_of_item_def do_update_ip_last_seen max.commute)
next
  case (snoc y ys)
  let ?S = "(case row of None \<Rightarrow> {} | Some r \<Rightarrow> {uih_last_seen r}) \<union> set (map snd ys)"
  obtain u where u: "fold_ip ys row = Some u"
    "uih_user_id u = (case row of None \<Rightarrow> UserID (fst (hd ys)) | Some r \<Rightarrow> uih_user_id r)"
    "uih_ip u = (case row of None \<Rightarrow> the (IPAddress (fst (hd ys))) | Some r \<Rightarrow> uih_ip r)"
    "uih_first_seen u = (case row of None \<Rightarrow> snd (hd ys) | Some r \<Rightarrow> uih_first_seen r)"
    "uih_last_seen u = Max ?S"
    using snoc.IH by blast
  have fin: "finite ?S" "?S \<noteq> {}"
    using snoc.hyps by (auto split: option.splits)
  have "Max (insert (snd y) ?S) = max (snd y) (Max ?S)"
    using fin by (rule Max_insert)
  then have m: "max (Max ?S) (snd y)
      = Max ((case row of None \<Rightarrow> {} | Some r \<Rightarrow> {uih_last_seen r}) \<union> set (map snd (ys @ [y])))"
    by (simp add: max.commute Un_commute)
  have h: "hd (ys @ [y]) = hd ys"
    using snoc.hyps by simp
  show ?case
    unfolding fold_ip_snoc u(1) h using u(2,3,4,5) m
    by (simp add: do_update_ip_last_seen ip_of_item_def)
qed

lemma Max_absorb:
  fixes S :: "'a::linorder set"
  assumes "finite S" "S \<noteq> {}" "T \<subseteq> S"
  shows "Max ({Max S} \<union> T) = Max S"
proof -
  have "finite T" using assms(1,3) by (rule rev_finite_subset)
  then have "finite ({Max S} \<union> T)" by simp
  moreover have "\<forall>x \<in> {Max S} \<union> T. x \<le> Max S"
    using assms by (auto intro: Max_ge)
  ultimately show ?thesis
    by (intro Max_eqI) auto
qed

lemma fold_user_idem: "fold_user ys (fold_user ys row) = fold_user ys row"
proof (cases "ys = []")
  case True
  then show ?thesis by (simp add: fold_user_def)
next
  case False
  let ?S = "(case row of None \<Rightarrow> {} | Some r \<Rightarrow> {pu_last_seen r}) \<union> set (map snd ys)"
  obtain u where u: "fold_user ys row = Some u"
    "pu_username u = User (fst (last ys))"
    "pu_friendly_name u = FriendlyName (fst (last ys))"
    "pu_user_thumb u = UserThumb (fst (last ys))"
    "pu_last_seen u = Max ?S"
    using fold_user_Some [OF False, of row] by blast
  obtain v where v: "fold_user ys (Some u) = Some v" "pu_id v = pu_id u"
    "pu_username v = User (fst (last ys))"
    "pu_friendly_name v = FriendlyName (fst (last ys))"
    "pu_user_thumb v = UserThumb (fst (last ys))"
    "pu_last_seen v = Max ({pu_last_seen u} \<union> set (map snd ys))"
    using fold_user_Some [OF False, of "Some u"] by auto
  have "finite ?S" "?S \<noteq> {}" "set (map snd ys) \<subseteq> ?S"
    using False by (auto split: option.splits)
  then have "Max ({Max ?S} \<union> set (map snd ys)) = Max ?S"
    by (rule Max_absorb)
  then have "pu_last_seen v = pu_last_seen u"
    using v(6) u(5) by simp
  then have "v = u"
    using u v by (intro plex_user.equality) simp_all
  then show ?thesis using u(1) v(1) by simp
qed

lemma fold_ip_idem: "fold_ip ys (fold_ip ys row) = fold_ip ys row"
proof (cases "ys = []")
  case True
  then show ?thesis by (simp add: fold_ip_def)
next
  case False
  let ?S = "(case row of None \<Rightarrow> {} | Some r \<Rightarrow> {uih_last_seen r}) \<union> set (map snd ys)"
  obtain u where u: "fold_ip ys row = Some u" "uih_last_seen u = Max ?S"
    using fold_ip_Some [OF False, of row] by blast
  obtain v where v: "fold_ip ys (Some u) = Some v" "uih_user_id v = uih_user_id u"
    "uih_ip v = uih_ip u" "uih_first_seen v = uih_first_seen u"
    "uih_last_seen v = Max ({uih_last_seen u} \<union> set (map snd ys))"
    using fold_ip_Some [OF False, of "Some u"] by auto
  have "finite ?S" "?S \<noteq> {}" "set (map snd ys) \<subseteq> ?S"
    using False by (auto split: option.splits)
  then have "Max ({Max ?S} \<union> set (map snd ys)) = Max ?S"
    by (rule Max_absorb)
  then have "uih_last_seen v = uih_last_seen u"
    using v(5) u(2) by simp
  then have "v = u"
    using v by (intro ip_history.equality) simp_all
  then show ?thesis using u(1) v(1) by simp
qed

subsection \<open>Keys of the tables, and idempotence of a dated batch\<close>

lemma keys_upsert_user:
  "map pu_id (upsert_user x rs)
     = (if pu_id x \<in> set (map pu_id rs) then map pu_id rs else map pu_id rs @ [pu_id x])"
  by (induction rs) auto

lemma keys_upsert_ip:
  "map (\<lambda>r. (uih_user_id r, uih_ip r)) (upsert_ip x rs)
     = (if (uih_user_id x, uih_ip x) \<in> set (map (\<lambda>r. (uih_user_id r, uih_ip r)) rs)
        then map (\<lambda>r. (uih_user_id r, uih_ip r)) rs
        else map (\<lambda>r. (uih_user_id r, uih_ip r)) rs @ [(uih_user_id x, uih_ip x)])"
  by (induction rs) auto

lemma wf_apply_stamped: "wf_store tx \<Longrightarrow> wf_store (apply_stamped x tx)"
  by (auto simp: wf_store_def apply_stamped_def Let_def keys_upsert_user keys_upsert_ip)

lemma wf_run_stamped: "wf_store tx \<Longrightarrow> wf_store (run_stamped xs tx)"
  by (induction xs arbitrary: tx) (simp_all add: wf_apply_stamped)

lemma wf_ingestLoop: "wf_store tx \<Longrightarrow> wf_store (snd (ingestLoop e i tx arr))"
proof (induction arr arbitrary: i tx)
  case Nil
  then show ?case by simp
next
  case (Cons it rest)
  let ?ts = "formatRFC3339 (effective_ts e i it)"
  let ?tx1 = "tx\<lparr>plex_users := upsert_user (user_of_item it ?ts) (plex_users tx)\<rparr>"
  let ?tx2 = "?tx1\<lparr>user_ip_history := upsert_ip (ip_of_item it ?ts) (user_ip_history ?tx1)\<rparr>"
  have 1: "wf_store ?tx1"
    using Cons.prems by (auto simp: wf_store_def keys_upsert_user)
  have 2: "wf_store ?tx2"
    using Cons.prems by (auto simp: wf_store_def keys_upsert_user keys_upsert_ip)
  show ?case
    using Cons.prems 1 2 Cons.IH [OF 1, of "Suc i"] Cons.IH [OF 2, of "Suc i"]
    by (simp add: Let_def)
qed

lemma wf_ingestItems: "wf_store db \<Longrightarrow> wf_store (snd (ingestItems e db arr))"
  using ingestItems_cases [of e db arr] wf_ingestLoop [of db e 0 arr] by auto

lemma wf_empty_store: "wf_store empty_store"
  by (simp add: wf_store_def empty_store_def)

lemma find_key_in_set: "find P rs = Some r \<Longrightarrow> r \<in> set rs \<and> P r"
  by (induction rs) (auto split: if_splits)

lemma users_keys_present:
  "UserID (fst x) \<in> set (map pu_id (plex_users tx)) \<Longrightarrow>
   map pu_id (plex_users (apply_stamped x tx)) = map pu_id (plex_users tx)"
  by (simp add: apply_stamped_def Let_def keys_upsert_user user_of_item_def)

lemma ips_keys_present:
  "(has_ip (fst x) \<longrightarrow>
      (UserID (fst x), the (IPAddress (fst x)))
        \<in> set (map (\<lambda>r. (uih_user_id r, uih_ip r)) (user_ip_history tx))) \<Longrightarrow>
   map (\<lambda>r. (uih_user_id r, uih_ip r)) (user_ip_history (apply_stamped x tx))
     = map (\<lambda>r. (uih_user_id r, uih_ip r)) (user_ip_history tx)"
  by (simp add: apply_stamped_def Let_def keys_upsert_ip ip_of_item_def)

lemma users_keys_run_present:
  "\<forall>x \<in> set xs. UserID (fst x) \<in> set (map pu_id (plex_users tx)) \<Longrightarrow>
   map pu_id (plex_users (run_stamped xs tx)) = map pu_id (plex_users tx)"
proof (induction xs arbitrary: tx)
  case Nil
  then show ?case by simp
next
  case (Cons x xs)
  have k: "map pu_id (plex_users (apply_stamped x tx)) = map pu_id (plex_users tx)"
    using Cons.prems by (intro users_keys_present) simp
  have "\<forall>y \<in> set xs. UserID (fst y) \<in> set (map pu_id (plex_users (apply_stamped x tx)))"
    unfolding k using Cons.prems by simp
  from Cons.IH [OF this] show ?case using k by simp
qed

lemma ips_keys_run_present:
  "\<forall>x \<in> set xs. has_ip (fst x) \<longrightarrow>
      (UserID (fst x), the (IPAddress (fst x)))
        \<in> set (map (\<lambda>r. (uih_user_id r, uih_ip r)) (user_ip_history tx)) \<Longrightarrow>
   map (\<lambda>r. (uih_user_id r, uih_ip r)) (user_ip_history (run_stamped xs tx))
     = map (\<lambda>r. (uih_user_id r, uih_ip r)) (user_ip_history tx)"
proof (induction xs arbitrary: tx)
  case Nil
  then show ?case by simp
next
  case (Cons x xs)
  have k: "map (\<lambda>r. (uih_user_id r, uih_ip r)) (user_ip_history (apply_stamped x tx))
      = map (\<lambda>r. (uih_user_id r, uih_ip r)) (user_ip_history tx)"
    using Cons.prems by (intro ips_keys_present) simp
  have "\<forall>y \<in> set xs. has_ip (fst y) \<longrightarrow>
      (UserID (fst y), the (IPAddress (fst y)))
        \<in> set (map (\<lambda>r. (uih_user_id r, uih_ip r)) (user_ip_history (apply_stamped x tx)))"
    unfolding k using Cons.prems by simp
  from Cons.IH [OF this] show ?case using k by simp
qed

lemma users_keys_run_contains:
  assumes "x \<in> set xs"
  shows "UserID (fst x) \<in> set (map pu_id (plex_users (run_stamped xs tx)))"
proof -
  have "filter (\<lambda>y. UserID (fst y) = UserID (fst x)) xs \<noteq> []"
    using assms by (auto simp: filter_empty_conv)
  then obtain u where "find_user (run_stamped xs tx) (UserID (fst x)) = Some u"
    unfolding find_user_run using fold_user_Some by blast
  then have "u \<in> set (plex_users (run_stamped xs tx)) \<and> pu_id u = UserID (fst x)"
    unfolding find_user_def by (rule find_key_in_set)
  then show ?thesis by force
qed

lemma ips_keys_run_contains:
  assumes "x \<in> set xs" "has_ip (fst x)"
  shows "(UserID (fst x), the (IPAddress (fst x)))
           \<in> set (map (\<lambda>r. (uih_user_id r, uih_ip r)) (user_ip_history (run_stamped xs tx)))"
proof -
  have m: "mentions (fst x) (UserID (fst x)) (the (IPAddress (fst x)))"
    using assms(2) by (auto simp: mentions_def has_ip_def split: option.splits)
  then have "filter (\<lambda>y. mentions (fst y) (UserID (fst x)) (the (IPAddress (fst x)))) xs \<noteq> []"
    using assms(1) by (auto simp: filter_empty_conv)
  then obtain u where "find_ip (run_stamped xs tx) (UserID (fst x)) (the (IPAddress (fst x))) = Some u"
    unfolding find_ip_run using fold_ip_Some by blast
  then have "u \<in> set (user_ip_history (run_stamped xs tx))
      \<and> (uih_user_id u = UserID (fst x) \<and> uih_ip u = the (IPAddress (fst x)))"
    unfolding find_ip_def by (rule find_key_in_set)
  then show ?thesis by force
qed

lemma rows_eqI:
  assumes "distinct (map key xs)" "map key xs = map key ys"
    and "\<And>k. find (\<lambda>r. key r = k) xs = find (\<lambda>r. key r = k) ys"
  shows "xs = ys"
  using assms
proof (induction xs arbitrary: ys)
  case Nil
  then show ?case by simp
next
  case (Cons x xs)
  then obtain y ys' where ys: "ys = y # ys'" "key y = key x" "map key xs = map key ys'"
    by (cases ys) auto
  have "x = y"
    using Cons.prems(3) [of "key x"] ys by simp
  have tail: "find (\<lambda>r. key r = k) xs = find (\<lambda>r. key r = k) ys'" for k
  proof (cases "k = key x")
    case True
    have "k \<notin> set (map key xs)" "k \<notin> set (map key ys')"
      using True Cons.prems(1) ys(3) by auto
    then have "find (\<lambda>r. key r = k) xs = None" "find (\<lambda>r. key r = k) ys' = None"
      by (auto simp: find_None_iff)
    then show ?thesis by simp
  next
    case False
    then show ?thesis using Cons.prems(3) [of k] ys by auto
  qed
  have "xs = ys'"
    using Cons.IH [of ys'] Cons.prems(1) ys(3) tail by simp
  then show ?case using \<open>x = y\<close> ys by simp
qed

lemma run_stamped_idem:
  assumes "wf_store db"
  shows "run_stamped xs (run_stamped xs db) = run_stamped xs db"
proof -
  let ?t = "run_stamped xs db"
  have wf: "wf_store ?t" using assms by (rule wf_run_stamped)
  have ku: "map pu_id (plex_users (run_stamped xs ?t)) = map pu_id (plex_users ?t)"
    by (intro users_keys_run_present ballI users_keys_run_contains)
  have ki: "map (\<lambda>r. (uih_user_id r, uih_ip r)) (user_ip_history (run_stamped xs ?t))
      = map (\<lambda>r. (uih_user_id r, uih_ip r)) (user_ip_history ?t)"
    by (intro ips_keys_run_present ballI impI ips_keys_run_contains)
  have fu: "find (\<lambda>r. pu_id r = k) (plex_users (run_stamped xs ?t))
      = find (\<lambda>r. pu_id r = k) (plex_users ?t)" for k
    using find_user_run [of xs ?t k] find_user_run [of xs db k]
    by (simp add: fold_user_idem find_user_def)
  have fi: "find (\<lambda>r. (uih_user_id r, uih_ip r) = k) (user_ip_history (run_stamped xs ?t))
      = find (\<lambda>r. (uih_user_id r, uih_ip r) = k) (user_ip_history ?t)" for k
    using find_ip_run [of xs ?t "fst k" "snd k"] find_ip_run [of xs db "fst k" "snd k"]
    by (cases k) (simp add: fold_ip_idem find_ip_def)
  have u: "plex_users (run_stamped xs ?t) = plex_users ?t"
    using wf ku [symmetric] fu [symmetric]
    by (intro rows_eqI [of pu_id, symmetric]) (simp_all add: wf_store_def)
  have i: "user_ip_history (run_stamped xs ?t) = user_ip_history ?t"
    using wf ki [symmetric] fi [symmetric]
    by (intro rows_eqI [of "\<lambda>r. (uih_user_id r, uih_ip r)", symmetric]) (simp_all add: wf_store_def)
  show ?thesis
    using u i by (intro store.equality) simp_all
qed

lemma fst_stamped: "map fst (stamped e i arr) = arr"
proof (induction arr arbitrary: i)
  case Nil
  then show ?case by simp
next
  case (Cons it rest)
  then show ?case by (simp add: stamped_Cons)
qed

lemma first_seen_upsert_ip:
  "map (\<lambda>r. (uih_user_id r, uih_ip r, uih_first_seen r)) (upsert_ip x rs)
     = (if (uih_user_id x, uih_ip x) \<in> set (map (\<lambda>r. (uih_user_id r, uih_ip r)) rs)
        then map (\<lambda>r. (uih_user_id r, uih_ip r, uih_first_seen r)) rs
        else map (\<lambda>r. (uih_user_id r, uih_ip r, uih_first_seen r)) rs
             @ [(uih_user_id x, uih_ip x, uih_first_seen x)])"
  by (induction rs) auto

lemma first_seen_run_present:
  "\<forall>x \<in> set xs. has_ip (fst x) \<longrightarrow>
      (UserID (fst x), the (IPAddress (fst x)))
        \<in> set (map (\<lambda>r. (uih_user_id r, uih_ip r)) (user_ip_history tx)) \<Longrightarrow>
   map (\<lambda>r. (uih_user_id r, uih_ip r, uih_first_seen r)) (user_ip_history (run_stamped xs tx))
     = map (\<lambda>r. (uih_user_id r, uih_ip r, uih_first_seen r)) (user_ip_history tx)"
proof (induction xs arbitrary: tx)
  case Nil
  then show ?case by simp
next
  case (Cons x xs)
  have p: "has_ip (fst x) \<longrightarrow>
      (UserID (fst x), the (IPAddress (fst x)))
        \<in> set (map (\<lambda>r. (uih_user_id r, uih_ip r)) (user_ip_history tx))"
    using Cons.prems by simp
  have k: "map (\<lambda>r. (uih_user_id r, uih_ip r)) (user_ip_history (apply_stamped x tx))
      = map (\<lambda>r. (uih_user_id r, uih_ip r)) (user_ip_history tx)"
    using p by (rule ips_keys_present)
  have f: "map (\<lambda>r. (uih_user_id r, uih_ip r, uih_first_seen r)) (user_ip_history (apply_stamped x tx))
      = map (\<lambda>r. (uih_user_id r, uih_ip r, uih_first_seen r)) (user_ip_history tx)"
    using p by (simp add: apply_stamped_def Let_def first_seen_upsert_ip ip_of_item_def)
  have "\<forall>y \<in> set xs. has_ip (fst y) \<longrightarrow>
      (UserID (fst y), the (IPAddress (fst y)))
        \<in> set (map (\<lambda>r. (uih_user_id r, uih_ip r)) (user_ip_history (apply_stamped x tx)))"
    unfolding k using Cons.prems by simp
  from Cons.IH [OF this] show ?case using f by simp
qed

lemma stamped_same_items:
  assumes "y \<in> set (stamped e2 j arr)"
  shows "\<exists>x \<in> set (stamped e1 i arr). fst x = fst y"
proof -
  have "fst y \<in> set (map fst (stamped e2 j arr))" using assms by force
  then have "fst y \<in> fst ` set (stamped e1 i arr)" by (simp add: fst_stamped flip: set_map)
  then obtain x where "x \<in> set (stamped e1 i arr)" "fst y = fst x" by (rule imageE)
  then show ?thesis by (intro bexI [of _ x]) simp_all
qed

subsection \<open>Ingesting a batch twice\<close>

text \<open>
  Claim C3, as the code has it. On a store whose keys are unique, with no failure of
  the store, ingesting a batch a second time creates no row and changes no
  \<open>first_seen\<close>; when every item of the batch carries an explicit positive date, the
  second application succeeds and leaves the store exactly as the first application
  left it. (An item without such a date is stamped with the wall clock of each
  application.)
\<close>

theorem ingest_twice:
  "(wf_store db \<and> reliable e1 \<and> reliable e2 \<and> (\<forall>it \<in> set arr. dated it) \<longrightarrow>
      ingestItems e2 (snd (ingestItems e1 db arr)) arr = (None, snd (ingestItems e1 db arr)))
   \<and> (reliable e1 \<and> reliable e2 \<longrightarrow>
      map pu_id (plex_users (snd (ingestItems e2 (snd (ingestItems e1 db arr)) arr)))
        = map pu_id (plex_users (snd (ingestItems e1 db arr)))
      \<and> map (\<lambda>r. (uih_user_id r, uih_ip r, uih_first_seen r))
            (user_ip_history (snd (ingestItems e2 (snd (ingestItems e1 db arr)) arr)))
        = map (\<lambda>r. (uih_user_id r, uih_ip r, uih_first_seen r))
            (user_ip_history (snd (ingestItems e1 db arr))))"
proof (intro conjI impI)
  assume a: "wf_store db \<and> reliable e1 \<and> reliable e2 \<and> (\<forall>it \<in> set arr. dated it)"
  let ?xs = "map (\<lambda>it. (it, formatRFC3339 (the (Date it)))) arr"
  have s: "stamped e1 0 arr = ?xs" "stamped e2 0 arr = ?xs"
    using a stamped_dated by blast+
  have 1: "ingestItems e1 db arr = (None, run_stamped ?xs db)"
    using a reliable_ingest [of e1 db arr] s by simp
  have 2: "ingestItems e2 (run_stamped ?xs db) arr = (None, run_stamped ?xs (run_stamped ?xs db))"
    using a reliable_ingest [of e2 "run_stamped ?xs db" arr] s by simp
  show "ingestItems e2 (snd (ingestItems e1 db arr)) arr = (None, snd (ingestItems e1 db arr))"
    using a 1 2 run_stamped_idem [of db ?xs] by simp
next
  assume a: "reliable e1 \<and> reliable e2"
  let ?xs1 = "stamped e1 0 arr" and ?xs2 = "stamped e2 0 arr"
  let ?t = "run_stamped ?xs1 db"
  have 1: "snd (ingestItems e1 db arr) = ?t"
    using a reliable_ingest [of e1 db arr] by simp
  have 2: "snd (ingestItems e2 ?t arr) = run_stamped ?xs2 ?t"
    using a reliable_ingest [of e2 ?t arr] by simp
  have pu: "\<forall>y \<in> set ?xs2. UserID (fst y) \<in> set (map pu_id (plex_users ?t))"
  proof
    fix y assume "y \<in> set ?xs2"
    then obtain x where "x \<in> set ?xs1" "fst x = fst y"
      using stamped_same_items [of y e2 0 arr e1 0] by blast
    then show "UserID (fst y) \<in> set (map pu_id (plex_users ?t))"
      using users_keys_run_contains [of x ?xs1 db] by simp
  qed
  have pi: "\<forall>y \<in> set ?xs2. has_ip (fst y) \<longrightarrow>
      (UserID (fst y), the (IPAddress (fst y)))
        \<in> set (map (\<lambda>r. (uih_user_id r, uih_ip r)) (user_ip_history ?t))"
  proof (intro ballI impI)
    fix y assume y: "y \<in> set ?xs2" "has_ip (fst y)"
    then obtain x where "x \<in> set ?xs1" "fst x = fst y"
      using stamped_same_items [of y e2 0 arr e1 0] by blast
    then show "(UserID (fst y), the (IPAddress (fst y)))
        \<in> set (map (\<lambda>r. (uih_user_id r, uih_ip r)) (user_ip_history ?t))"
      using ips_keys_run_contains [of x ?xs1 db] y(2) by simp
  qed
  show "map pu_id (plex_users (snd (ingestItems e2 (snd (ingestItems e1 db arr)) arr)))
        = map pu_id (plex_users (snd (ingestItems e1 db arr)))"
    unfolding 1 2 using pu by (rule users_keys_run_present)
  show "map (\<lambda>r. (uih_user_id r, uih_ip r, uih_first_seen r))
            (user_ip_history (snd (ingestItems e2 (snd (ingestItems e1 db arr)) arr)))
        = map (\<lambda>r. (uih_user_id r, uih_ip r, uih_first_seen r))
            (user_ip_history (snd (ingestItems e1 db arr)))"
    unfolding 1 2 using pi by (rule first_seen_run_present)
qed

text \<open>
  The dated batch, applied twice to the empty store at two different times of the
  wall clock: the second application returns the store of the first.
\<close>

theorem ingest_twice_witness:
  "wf_store empty_store \<and> reliable (quiet_env 5000) \<and> reliable (quiet_env 9000)
   \<and> map dated dated_batch = [True, True, True]
   \<and> ingestItems (quiet_env 9000) (snd (ingestItems (quiet_env 5000) empty_store dated_batch))
        dated_batch
      = (None, snd (ingestItems (quiet_env 5000) empty_store dated_batch))
   \<and> map pu_username (plex_users (snd (ingestItems (quiet_env 5000) empty_store dated_batch)))
      = [''alicia'', ''bob'']"
proof -
  have 1: "wf_store empty_store" by (rule wf_empty_store)
  have 2: "reliable (quiet_env t)" for t by (simp add: reliable_def quiet_env_def)
  have 3: "map dated dated_batch = [True, True, True]"
    by (simp add: dated_batch_def dated_def obs_def)
  then have 4: "\<forall>it \<in> set dated_batch. dated it"
    by (simp add: dated_batch_def)
  have imp: "wf_store empty_store \<and> reliable (quiet_env 5000) \<and> reliable (quiet_env 9000)
      \<and> (\<forall>it \<in> set dated_batch. dated it) \<longrightarrow>
      ingestItems (quiet_env 9000) (snd (ingestItems (quiet_env 5000) empty_store dated_batch))
          dated_batch
        = (None, snd (ingestItems (quiet_env 5000) empty_store dated_batch))"
    using ingest_twice [of empty_store "quiet_env 5000" "quiet_env 9000" dated_batch]
    by (elim conjE)
  have 5: "ingestItems (quiet_env 9000) (snd (ingestItems (quiet_env 5000) empty_store dated_batch))
        dated_batch
      = (None, snd (ingestItems (quiet_env 5000) empty_store dated_batch))"
    by (rule mp [OF imp]) (intro conjI 1 2 4)
  have 6: "map pu_username (plex_users (snd (ingestItems (quiet_env 5000) empty_store dated_batch)))
      = [''alicia'', ''bob'']"
    by (simp add: dated_batch_def ingest_eval)
  show ?thesis by (intro conjI 1 2 3 5 6)
qed

text \<open>
  The claim as stated fails on a batch with an item that carries no date: applied at
  1000 and again at 2000, the second application raises both \<open>last_seen\<close> columns.
\<close>

theorem ingest_twice_undated_counterexample:
  "snd (ingestItems (quiet_env 2000) (snd (ingestItems (quiet_env 1000) empty_store undated_batch))
         undated_batch)
     \<noteq> snd (ingestItems (quiet_env 1000) empty_store undated_batch)
   \<and> map pu_last_seen (plex_users (snd (ingestItems (quiet_env 1000) empty_store undated_batch)))
      = [''1970-01-01T00:16:40Z'']
   \<and> map pu_last_seen (plex_users (snd (ingestItems (quiet_env 2000)
        (snd (ingestItems (quiet_env 1000) empty_store undated_batch)) undated_batch)))
      = [''1970-01-01T00:33:20Z'']"
proof -
  have 1: "map pu_last_seen (plex_users (snd (ingestItems (quiet_env 1000) empty_store undated_batch)))
      = [''1970-01-01T00:16:40Z'']"
    by (simp add: undated_batch_def ingest_eval fmt_1000)
  have 2: "map pu_last_seen (plex_users (snd (ingestItems (quiet_env 2000)
        (snd (ingestItems (quiet_env 1000) empty_store undated_batch)) undated_batch)))
      = [''1970-01-01T00:33:20Z'']"
    by (simp add: undated_batch_def ingest_eval fmt_1000 fmt_2000)
  have 3: "snd (ingestItems (quiet_env 2000) (snd (ingestItems (quiet_env 1000) empty_store undated_batch))
         undated_batch)
     \<noteq> snd (ingestItems (quiet_env 1000) empty_store undated_batch)"
  proof
    assume "snd (ingestItems (quiet_env 2000) (snd (ingestItems (quiet_env 1000) empty_store undated_batch))
         undated_batch)
     = snd (ingestItems (quiet_env 1000) empty_store undated_batch)"
    then have "map pu_last_seen (plex_users (snd (ingestItems (quiet_env 2000)
        (snd (ingestItems (quiet_env 1000) empty_store undated_batch)) undated_batch)))
      = map pu_last_seen (plex_users (snd (ingestItems (quiet_env 1000) empty_store undated_batch)))"
      by (simp only:)
    then have "[''1970-01-01T00:33:20Z''] = [''1970-01-01T00:16:40Z'']"
      unfolding 1 2 .
    then show False by simp
  qed
  show ?thesis by (intro conjI 1 2 3)
qed

subsection \<open>The last sighting of a user over several calls\<close>

text \<open>
  Claim C1 (after the calls, the user's \<open>last_seen\<close> is the maximum of the
  timestamps supplied) fails on the code, by the defect of claim C9: the upsert keeps
  the greater of the two \<open>last_seen\<close> strings, and a year above 9999 sorts below
  every four-digit year. After a call that dates user 1 at 253402300800
  (10000-01-01T00:00:00Z) and a call that dates the user at 1000
  (1970-01-01T00:16:40Z), in either order, the stored \<open>last_seen\<close> is the rendering of
  1000, not that of the maximum.
\<close>

theorem last_seen_not_maximum:
  "map_option pu_last_seen
     (find_user (snd (ingestItems (quiet_env 0)
                   (snd (ingestItems (quiet_env 0) empty_store
                           [obs 1 ''alice'' None (Some 253402300800)]))
                   [obs 1 ''alice'' None (Some 1000)])) 1)
     = Some (formatRFC3339 1000)
   \<and> map_option pu_last_seen
     (find_user (snd (ingestItems (quiet_env 0)
                   (snd (ingestItems (quiet_env 0) empty_store
                           [obs 1 ''alice'' None (Some 1000)]))
                   [obs 1 ''alice'' None (Some 253402300800)])) 1)
     = Some (formatRFC3339 1000)
   \<and> formatRFC3339 (max 253402300800 1000) = ''10000-01-01T00:00:00Z''
   \<and> formatRFC3339 1000 = ''1970-01-01T00:16:40Z''"
  by (simp add: find_user_def ingest_eval fmt_year_10000 fmt_1000)

end
